theory Spec2Isabelle
  imports Complex_Main
begin

section \<open>JavaScript values\<close>

text \<open>
  Tool arguments, tool results and the messages of the bridge socket are JSON values.
  \<open>JUndef\<close> is JavaScript's \<open>undefined\<close>: the value of a missing property.
  Objects are association lists; a property read takes the first binding of the key.
  A number is held as the string that \<open>Number.prototype.toString\<close> gives for it
  (\<open>42\<close>, \<open>0.5\<close>, \<open>1e+21\<close>, \<open>NaN\<close>): two numbers with the same string are the
  same number but for the sign of zero, and the program does no arithmetic on the
  numbers of a message.
\<close>

datatype json =
    JUndef
  | JNull
  | JBool bool
  | JNum string
  | JStr string
  | JArr "json list"
  | JObj "(string \<times> json) list"

datatype error = TypeError

text \<open>Truthiness, as \<open>if (x)\<close>, \<open>x || y\<close> and \<open>x ? a : b\<close> test it.\<close>

fun truthy :: "json \<Rightarrow> bool" where
  "truthy JUndef = False"
| "truthy JNull = False"
| "truthy (JBool b) = b"
| "truthy (JNum r) = (r \<noteq> ''0'' \<and> r \<noteq> ''NaN'')"
| "truthy (JStr s) = (s \<noteq> [])"
| "truthy (JArr xs) = True"
| "truthy (JObj kvs) = True"

text \<open>A property read \<open>x.k\<close> throws a TypeError exactly when \<open>x\<close> is nullish.\<close>

definition nullish :: "json \<Rightarrow> bool" where
  "nullish x = (x = JUndef \<or> x = JNull)"

text \<open>
  \<open>get x k\<close> is the property read \<open>x.k\<close> on a value that is not nullish (the callers
  test \<open>nullish\<close> first). None of the keys the program reads exists on a string, a
  number, a boolean or an array.
\<close>

fun get :: "json \<Rightarrow> string \<Rightarrow> json" where
  "get (JObj kvs) k = (case map_of kvs k of None \<Rightarrow> JUndef | Some v \<Rightarrow> v)"
| "get x k = JUndef"

fun is_string :: "json \<Rightarrow> bool" where
  "is_string (JStr s) = True"
| "is_string x = False"

text \<open>\<open>x[0]\<close> on a value that is not nullish.\<close>

fun index0 :: "json \<Rightarrow> json" where
  "index0 (JStr s) = (case s of [] \<Rightarrow> JUndef | c # cs \<Rightarrow> JStr [c])"
| "index0 (JArr xs) = (case xs of [] \<Rightarrow> JUndef | x # ys \<Rightarrow> x)"
| "index0 (JObj kvs) = (case map_of kvs ''0'' of None \<Rightarrow> JUndef | Some v \<Rightarrow> v)"
| "index0 x = JUndef"

text \<open>The decimal digits of \<open>Date.now()\<close>, for \<open>Date.now().toString()\<close>.\<close>

fun show_nat :: "nat \<Rightarrow> string" where
  "show_nat n =
     (if n < 10 then [''0123456789'' ! n]
      else show_nat (n div 10) @ [''0123456789'' ! (n mod 10)])"

declare show_nat.simps [simp del]

fun join_comma :: "string list \<Rightarrow> string" where
  "join_comma [] = []"
| "join_comma [s] = s"
| "join_comma (s # t # ss) = s @ '','' @ join_comma (t # ss)"

text \<open>The results of a list of conversions, or the exception of the first that throws.\<close>

fun sequence :: "(error + string) list \<Rightarrow> error + string list" where
  "sequence [] = Inr []"
| "sequence (Inl e # rs) = Inl e"
| "sequence (Inr s # rs) = (case sequence rs of Inl e \<Rightarrow> Inl e | Inr ss \<Rightarrow> Inr (s # ss))"

text \<open>
  The string a template literal interpolates for a value. An object whose own members
  include \<open>toString\<close> has no callable \<open>toString\<close> (no member of a JSON value is a
  function) and \<open>Object.prototype.valueOf\<close> returns the object, so the conversion throws
  a TypeError; any other object gives \<open>[object Object]\<close>. An array joins the strings of
  its elements, a nullish element giving the empty string.
\<close>

primrec js_String :: "json \<Rightarrow> error + string" where
  "js_String JUndef = Inr ''undefined''"
| "js_String JNull = Inr ''null''"
| "js_String (JBool b) = Inr (if b then ''true'' else ''false'')"
| "js_String (JNum r) = Inr r"
| "js_String (JStr s) = Inr s"
| "js_String (JArr xs) =
     (case sequence (map2 (\<lambda>x r. if x = JNull \<or> x = JUndef then Inr [] else r) xs
                      (map js_String xs)) of
        Inl e \<Rightarrow> Inl e
      | Inr ss \<Rightarrow> Inr (join_comma ss))"
| "js_String (JObj kvs) =
     (if map_of kvs ''toString'' = None then Inr ''[object Object]'' else Inl TypeError)"

text \<open>The conversion returns a string.\<close>

definition converts :: "json \<Rightarrow> bool" where
  "converts x = (case js_String x of Inl e \<Rightarrow> False | Inr s \<Rightarrow> True)"

text \<open>\<open>s.split(',')\<close>\<close>

fun split_comma :: "string \<Rightarrow> string list" where
  "split_comma [] = [[]]"
| "split_comma (c # cs) =
     (if c = CHR '','' then [] # split_comma cs
      else (case split_comma cs of [] \<Rightarrow> [[c]] | w # ws \<Rightarrow> (c # w) # ws))"

text \<open>
  What the peer parses from \<open>JSON.stringify x\<close>: a property whose value is \<open>undefined\<close>
  is dropped, an \<open>undefined\<close> array element becomes \<open>null\<close>, and so does a number that
  is not finite.
\<close>

primrec json_roundtrip :: "json \<Rightarrow> json" where
  "json_roundtrip JUndef = JUndef"
| "json_roundtrip JNull = JNull"
| "json_roundtrip (JBool b) = JBool b"
| "json_roundtrip (JNum r) =
     (if r = ''NaN'' \<or> r = ''Infinity'' \<or> r = ''-Infinity'' then JNull else JNum r)"
| "json_roundtrip (JStr s) = JStr s"
| "json_roundtrip (JArr xs) =
     JArr (map (\<lambda>x. if x = JUndef then JNull else x) (map json_roundtrip xs))"
| "json_roundtrip (JObj kvs) =
     JObj (filter (\<lambda>kv. snd kv \<noteq> JUndef) (map (map_prod id json_roundtrip) kvs))"

text \<open>\<open>s.includes(t)\<close>\<close>

fun starts_with :: "string \<Rightarrow> string \<Rightarrow> bool" where
  "starts_with s [] = True"
| "starts_with [] (c # t) = False"
| "starts_with (d # s) (c # t) = (d = c \<and> starts_with s t)"

fun str_includes :: "string \<Rightarrow> string \<Rightarrow> bool" where
  "str_includes [] t = (t = [])"
| "str_includes (c # s) t = (starts_with (c # s) t \<or> str_includes s t)"

section \<open>The state of the hook \<open>useLiveAPI\<close>\<close>

record BrowserState =
  isConnected :: bool
  url :: json
  page :: string
  isLoading :: bool
  calendarEvents :: "json list"
  emails :: "json list"
  screenshot :: json

datatype log_type = Info | Tool | Error | Success

record LogEntry =
  timestamp :: nat
  message :: string
  type :: log_type

datatype ready_state = CONNECTING | OPEN | CLOSING | CLOSED

datatype context_state = Running | Closed

datatype function_call = FunctionCall (fc_id: json) (fc_name: string) (fc_args: json)

text \<open>
  A message of the live session: \<open>toolCall\<close> is \<open>None\<close> when the message has no tool
  call, \<open>Some None\<close> when it has one without \<open>functionCalls\<close>. \<open>audio\<close> is \<open>Some d\<close>
  when the message carries a non-empty audio payload; \<open>d\<close> is the duration of the buffer
  that \<open>decodeAudioData\<close> (of \<open>utils/audioUtils\<close>) returns for it.
\<close>

datatype live_message =
  LiveServerMessage (toolCall: "function_call list option option") (audio: "real option")

text \<open>The closures handed to \<open>setTimeout\<close>.\<close>

datatype timer_action =
    Reconnect
  | ToolTimeout string nat
  | SimulationDelay string json nat

type_synonym timer = "nat \<times> nat \<times> timer_action"

text \<open>
  An \<open>onmessage\<close> handler suspended at \<open>await executeTool(...)\<close>: the call it waits for,
  the calls of the loop still to come, and the audio part of its message.
\<close>

datatype task = Task function_call "function_call list" "real option"

text \<open>
  The React state and the refs of the hook, then what the environment holds for it: the
  wall clock (ms), the pending timers (handle, due time, closure), the outcomes of the
  coming \<open>Math.random().toString(36).substring(7)\<close> calls, the promises created by
  \<open>executeTool\<close> (numbered) with the handlers awaiting them, the resolutions whose
  continuation has not run yet, and the clock of the output audio context. The last fields are histories: every message written to the bridge
  socket (as the peer parses it), every tool response sent to the session, every call of
  a promise's \<open>resolve\<close>, every rejected promise, every \<open>source.start\<close> (the output clock
  when the chunk was enqueued, the start time, the duration), every request sent to the
  bridge (promise, request id, handle of its timeout), and every call the loop of
  \<open>onmessage\<close> has passed to \<open>executeTool\<close>, with the promise it got.
\<close>

record client =
  connected :: bool
  volume :: "real option"
  logs :: "LogEntry list"
  browserState :: BrowserState
  inputAudioContext :: "context_state option"
  outputAudioContext :: "context_state option"
  mediaStream :: bool
  sessionPromise :: bool
  capturing :: bool
  nextStartTime :: real
  sources :: "nat list"
  browserWs :: "ready_state option"
  reconnectTimeout :: "nat option"
  pendingRequests :: "string \<rightharpoonup> nat"
  apiKey :: string
  clock :: nat
  timers :: "timer list"
  nextHandle :: nat
  entropy :: "string list"
  nextPromise :: nat
  awaiting :: "nat \<rightharpoonup> task"
  microtasks :: "(nat \<times> json) list"
  outputTime :: real
  sent :: "json list"
  toolResponses :: "(json \<times> string \<times> json) list"
  resolved :: "(nat \<times> json) list"
  rejected :: "nat list"
  scheduled :: "(real \<times> real \<times> real) list"
  dispatched :: "(nat \<times> string \<times> nat) list"
  started :: "(nat \<times> function_call) list"

definition initial :: "string \<Rightarrow> string list \<Rightarrow> client" where
  "initial key rnd =
     \<lparr> connected = False, volume = Some 0, logs = [],
       browserState = \<lparr> isConnected = False, url = JStr ''about:blank'', page = ''dashboard'',
         isLoading = False, calendarEvents = [], emails = [], screenshot = JUndef \<rparr>,
       inputAudioContext = None, outputAudioContext = None, mediaStream = False,
       sessionPromise = False, capturing = False, nextStartTime = 0, sources = [],
       browserWs = None, reconnectTimeout = None, pendingRequests = Map.empty,
       apiKey = key, clock = 0, timers = [], nextHandle = 1, entropy = rnd,
       nextPromise = 0, awaiting = Map.empty, microtasks = [], outputTime = 0, sent = [],
       toolResponses = [], resolved = [], rejected = [], scheduled = [], dispatched = [],
       started = [] \<rparr>"

section \<open>Operations of the hook\<close>

subsection \<open>Activity log, browser state, timers\<close>

text \<open>\<open>setLogs(prev => [...prev.slice(-4), entry])\<close>\<close>

definition addLog :: "string \<Rightarrow> log_type \<Rightarrow> client \<Rightarrow> client" where
  "addLog msg ty s =
     s\<lparr>logs := drop (length (logs s) - 4) (logs s)
                 @ [\<lparr>timestamp = clock s, message = msg, type = ty\<rparr>]\<rparr>"

definition setBrowserState :: "(BrowserState \<Rightarrow> BrowserState) \<Rightarrow> client \<Rightarrow> client" where
  "setBrowserState f s = s\<lparr>browserState := f (browserState s)\<rparr>"

definition setTimeout :: "timer_action \<Rightarrow> nat \<Rightarrow> client \<Rightarrow> nat \<times> client" where
  "setTimeout a delay s =
     (nextHandle s,
      s\<lparr>timers := timers s @ [(nextHandle s, clock s + delay, a)],
        nextHandle := Suc (nextHandle s)\<rparr>)"

definition clearTimeout :: "nat \<Rightarrow> client \<Rightarrow> client" where
  "clearTimeout h s = s\<lparr>timers := filter (\<lambda>t. fst t \<noteq> h) (timers s)\<rparr>"

subsection \<open>The bridge connection\<close>

text \<open>
  \<open>connectToBrowser\<close>: \<open>ok\<close> tells whether \<open>new WebSocket(PUPPETEER_WS_URL)\<close> returns
  a socket (then in state CONNECTING, with the three handlers below) or throws.
\<close>

definition connectToBrowser :: "bool \<Rightarrow> client \<Rightarrow> client" where
  "connectToBrowser ok s =
     (if ok then s\<lparr>browserWs := Some CONNECTING\<rparr>
      else (let (h, s1) = setTimeout Reconnect 3000 s
            in s1\<lparr>reconnectTimeout := Some h\<rparr>))"

definition ws_onopen :: "client \<Rightarrow> client" where
  "ws_onopen s =
     (let s1 = setBrowserState (\<lambda>prev. prev\<lparr>isConnected := True\<rparr>) s;
          s2 = addLog ''Connected to Browser Engine'' Success s1
      in case reconnectTimeout s2 of None \<Rightarrow> s2 | Some h \<Rightarrow> clearTimeout h s2)"

definition ws_onclose :: "client \<Rightarrow> client" where
  "ws_onclose s =
     (let s1 = setBrowserState (\<lambda>prev. prev\<lparr>isConnected := False\<rparr>) s;
          (h, s2) = setTimeout Reconnect 3000 s1
      in s2\<lparr>reconnectTimeout := Some h\<rparr>)"

subsection \<open>Tool dispatch\<close>

definition random_id :: "client \<Rightarrow> string \<times> client" where
  "random_id s = (case entropy s of [] \<Rightarrow> ([], s) | r # rs \<Rightarrow> (r, s\<lparr>entropy := rs\<rparr>))"

definition ws_send :: "json \<Rightarrow> client \<Rightarrow> client" where
  "ws_send m s = s\<lparr>sent := sent s @ [json_roundtrip m]\<rparr>"

text \<open>
  A call of the \<open>resolve\<close> function of promise \<open>p\<close>. What awaits the promise runs once
  the running handler has returned.
\<close>

definition resolve_promise :: "nat \<Rightarrow> json \<Rightarrow> client \<Rightarrow> client" where
  "resolve_promise p v s =
     s\<lparr>resolved := resolved s @ [(p, v)], microtasks := microtasks s @ [(p, v)]\<rparr>"

definition timeout_result :: json where
  "timeout_result = JObj [(''status'', JStr ''error''), (''message'', JStr ''Browser timed out'')]"

text \<open>
  \<open>executeTool\<close> up to the point where it returns its promise: with the bridge socket
  open, the executor of \<open>new Promise\<close>; otherwise up to \<open>await new Promise(resolve =>
  setTimeout(resolve, 800))\<close>, the rest being the closure \<open>SimulationDelay\<close>.
\<close>

definition executeTool :: "string \<Rightarrow> json \<Rightarrow> client \<Rightarrow> nat \<times> client" where
  "executeTool name args s =
     (let s1 = addLog (''Executing: '' @ name) Tool s;
          s2 = setBrowserState (\<lambda>prev. prev\<lparr>isLoading := True\<rparr>) s1;
          p = nextPromise s2;
          s3 = s2\<lparr>nextPromise := Suc p\<rparr>
      in if browserWs s3 = Some OPEN then
           (let (requestId, s4) = random_id s3;
                s5 = s4\<lparr>pendingRequests := (pendingRequests s4)(requestId \<mapsto> p)\<rparr>;
                s6 = ws_send (JObj [(''type'', JStr ''action''), (''id'', JStr requestId),
                                    (''tool'', JStr name), (''args'', args)]) s5;
                (h, s7) = setTimeout (ToolTimeout requestId p) 5000 s6
            in (p, s7\<lparr>dispatched := dispatched s7 @ [(p, requestId, h)]\<rparr>))
         else
           (let (h, s4) = setTimeout (SimulationDelay name args p) 800 s3
            in (p, s4)))"

text \<open>
  The \<open>switch\<close> of the fallback simulation. A read of a property of nullish \<open>args\<close>
  throws, and so does the template literal of a log line on a value that has no string.
\<close>

definition simulate :: "string \<Rightarrow> json \<Rightarrow> client \<Rightarrow> (error + json) \<times> client" where
  "simulate name args s =
     (if name = ''openCalendar'' then
        (Inr (JObj [(''events'', JArr [JObj [(''id'', JStr ''1''),
            (''title'', JStr ''Team Sync (Simulated)''), (''time'', JStr ''10:00 AM''),
            (''attendees'', JArr [JStr ''Alice'', JStr ''Bob''])]])]),
         setBrowserState (\<lambda>prev. prev\<lparr>page := ''calendar'',
            url := JStr ''https://calendar.agent/view'', isLoading := False\<rparr>) s)
      else if name = ''openEmail'' then
        (Inr (JObj [(''emails'', JArr [JObj [(''id'', JStr ''1''), (''from'', JStr ''Boss''),
            (''subject'', JStr ''Simulated Email''), (''preview'', JStr ''This is a fake email.''),
            (''time'', JStr ''9:00 AM''), (''read'', JBool False)]])]),
         setBrowserState (\<lambda>prev. prev\<lparr>page := ''email'',
            url := JStr ''https://mail.agent/inbox'', isLoading := False\<rparr>) s)
      else if name = ''checkAvailability'' then
        (Inr (JObj [(''events'', JArr [JObj [(''id'', JStr ''1''),
            (''title'', JStr ''Team Sync''), (''time'', JStr ''10:00 AM''),
            (''attendees'', JArr [JStr ''Alice'', JStr ''Bob''])]])]),
         setBrowserState (\<lambda>prev. prev\<lparr>page := ''calendar'',
            url := JStr ''https://calendar.agent/view'', isLoading := False\<rparr>) s)
      else if name = ''bookMeeting'' then
        (if nullish args then (Inl TypeError, s)
         else (case js_String (get args ''title'') of
                 Inl e \<Rightarrow> (Inl e, s)
               | Inr title \<Rightarrow>
                   (Inr (JObj [(''status'', JStr ''success''), (''booked'', get args ''title'')]),
                    addLog (''Booked: '' @ title) Success s)))
      else if name = ''sendEmail'' then
        (let s1 = setBrowserState (\<lambda>prev. prev\<lparr>page := ''email'',
                    url := JStr ''https://mail.agent/sent'', isLoading := False\<rparr>) s
         in if nullish args then (Inl TypeError, s1)
            else (case js_String (get args ''to'') of
                    Inl e \<Rightarrow> (Inl e, s1)
                  | Inr recipient \<Rightarrow>
                      (Inr (JObj [(''status'', JStr ''success''), (''sentTo'', get args ''to'')]),
                       addLog (''Sent email to '' @ recipient) Success s1)))
      else
        (Inr (JObj [(''status'', JStr ''error''), (''message'', JStr ''Tool not found'')]),
         setBrowserState (\<lambda>prev. prev\<lparr>isLoading := False\<rparr>) s))"

subsection \<open>Messages of the live session\<close>

text \<open>
  The audio part of \<open>onmessage\<close>. The await of \<open>decodeAudioData\<close> is taken to complete
  before the next handler runs.
\<close>

definition audio_part :: "real option \<Rightarrow> client \<Rightarrow> client" where
  "audio_part a s =
     (case a of
        None \<Rightarrow> s
      | Some d \<Rightarrow>
          if outputAudioContext s \<noteq> None then
            (let s1 = s\<lparr>nextStartTime := max (nextStartTime s) (outputTime s)\<rparr>;
                 s2 = s1\<lparr>scheduled := scheduled s1 @ [(outputTime s1, nextStartTime s1, d)]\<rparr>;
                 s3 = s2\<lparr>nextStartTime := nextStartTime s2 + d\<rparr>
             in s3\<lparr>sources := sources s3 @ [length (scheduled s3) - 1]\<rparr>)
          else s)"

text \<open>
  The loop \<open>for (const fc of functionCalls)\<close> from the call at the head of \<open>calls\<close> on:
  it runs up to its next \<open>await executeTool(...)\<close>, where the handler is suspended on the
  promise; after the last call the handler goes on to the audio part.
\<close>

definition tool_loop :: "function_call list \<Rightarrow> real option \<Rightarrow> client \<Rightarrow> client" where
  "tool_loop calls a s =
     (case calls of
        [] \<Rightarrow> audio_part a s
      | fc # rest \<Rightarrow>
          (let (p, s1) = executeTool (fc_name fc) (fc_args fc) s
           in s1\<lparr>awaiting := (awaiting s1)(p \<mapsto> Task fc rest a),
                 started := started s1 @ [(p, fc)]\<rparr>))"

text \<open>\<open>session.sendToolResponse\<close> through \<open>sessionPromiseRef.current?.then\<close>.\<close>

definition sendToolResponse :: "function_call \<Rightarrow> json \<Rightarrow> client \<Rightarrow> client" where
  "sendToolResponse fc result s =
     (if sessionPromise s
      then s\<lparr>toolResponses := toolResponses s @ [(fc_id fc, fc_name fc, result)]\<rparr>
      else s)"

text \<open>
  The continuation of a resolution of promise \<open>p\<close> with \<open>v\<close>: the handler awaiting
  \<open>p\<close>, if there is one still, sends the tool response and goes on with its loop.
\<close>

definition resume :: "nat \<Rightarrow> json \<Rightarrow> client \<Rightarrow> client" where
  "resume p v s =
     (case awaiting s p of
        None \<Rightarrow> s
      | Some (Task fc rest a) \<Rightarrow>
          tool_loop rest a (sendToolResponse fc v (s\<lparr>awaiting := (awaiting s)(p := None)\<rparr>)))"

text \<open>Promise \<open>p\<close> has been rejected: the handler awaiting it ends there.\<close>

definition reject :: "nat \<Rightarrow> client \<Rightarrow> client" where
  "reject p s = s\<lparr>awaiting := (awaiting s)(p := None), rejected := rejected s @ [p]\<rparr>"

definition session_onmessage :: "live_message \<Rightarrow> client \<Rightarrow> client" where
  "session_onmessage m s =
     (case toolCall m of
        None \<Rightarrow> audio_part (audio m) s
      | Some None \<Rightarrow> s
      | Some (Some calls) \<Rightarrow> tool_loop calls (audio m) s)"

subsection \<open>Timers of the dispatcher\<close>

text \<open>The safety timeout set by \<open>executeTool\<close> for request \<open>requestId\<close> of promise \<open>p\<close>.\<close>

definition tool_timeout :: "string \<Rightarrow> nat \<Rightarrow> client \<Rightarrow> client" where
  "tool_timeout requestId p s =
     (if pendingRequests s requestId \<noteq> None then
        (let s1 = s\<lparr>pendingRequests := (pendingRequests s)(requestId := None)\<rparr>;
             s2 = resolve_promise p timeout_result s1
         in setBrowserState (\<lambda>prev. prev\<lparr>isLoading := False\<rparr>) s2)
      else s)"

text \<open>
  \<open>executeTool\<close> after its 800 ms delay: what it returns resolves its promise, what it
  throws rejects it.
\<close>

definition simulation_delay :: "string \<Rightarrow> json \<Rightarrow> nat \<Rightarrow> client \<Rightarrow> client" where
  "simulation_delay name args p s =
     (case simulate name args s of
        (Inl e, s1) \<Rightarrow> reject p s1
      | (Inr result, s1) \<Rightarrow> resolve_promise p result s1)"

subsection \<open>Messages of the bridge\<close>

text \<open>\<open>raw\<close> is \<open>None\<close> when \<open>JSON.parse\<close> throws; every exception is caught and dropped.\<close>

definition ws_onmessage :: "json option \<Rightarrow> client \<Rightarrow> client" where
  "ws_onmessage raw s =
     (case raw of
        None \<Rightarrow> s
      | Some data \<Rightarrow>
          if nullish data then s
          else if get data ''type'' = JStr ''screenshot'' then
            setBrowserState (\<lambda>prev. prev\<lparr>screenshot := get data ''data'', isLoading := False\<rparr>) s
          else if get data ''type'' = JStr ''url_change'' then
            setBrowserState (\<lambda>prev. prev\<lparr>url := get data ''url''\<rparr>) s
          else if get data ''type'' = JStr ''log'' then
            (case js_String (get data ''message'') of
               Inl e \<Rightarrow> s
             | Inr line \<Rightarrow> addLog (''Browser: '' @ line) Info s)
          else if get data ''type'' = JStr ''tool_result'' \<and> truthy (get data ''id'') then
            (case get data ''id'' of
               JStr requestId \<Rightarrow>
                 (case pendingRequests s requestId of
                    None \<Rightarrow> s
                  | Some p \<Rightarrow>
                      (let s1 = resolve_promise p (get data ''result'') s
                       in s1\<lparr>pendingRequests := (pendingRequests s1)(requestId := None)\<rparr>))
             | _ \<Rightarrow> s)
          else s)"

subsection \<open>Session lifecycle and audio capture\<close>

text \<open>An exception thrown by \<open>getUserMedia\<close>: its \<open>name\<close> and its \<open>message\<close>, if it has one.\<close>

datatype media_error = MediaError (err_name: string) (err_message: "string option")

text \<open>
  \<open>connect\<close>: \<open>gum\<close> is \<open>None\<close> when \<open>getUserMedia\<close> returns a stream, \<open>Some err\<close> when it
  throws \<open>err\<close>.
\<close>

definition connect :: "media_error option \<Rightarrow> client \<Rightarrow> client" where
  "connect gum s =
     (if apiKey s = [] then addLog ''Missing API Key'' Error s
      else
        (let s1 = addLog ''Requesting microphone...'' Info s
         in case gum of
              Some err \<Rightarrow>
                (let s2 =
                   (if err_name err = ''NotAllowedError''
                       \<or> (case err_message err of None \<Rightarrow> False
                           | Some m \<Rightarrow> str_includes m ''Permission denied'')
                    then addLog ''Microphone access denied. Please check permissions.'' Error s1
                    else addLog (''Failed to connect: ''
                           @ (case err_message err of None \<Rightarrow> ''Unknown error''
                              | Some m \<Rightarrow> if m = [] then ''Unknown error'' else m)) Error s1)
                 in s2\<lparr>connected := False\<rparr>)
            | None \<Rightarrow>
                (let s2 = s1\<lparr>mediaStream := True\<rparr>;
                     s3 = addLog ''Initializing audio...'' Info s2;
                     s4 = s3\<lparr>inputAudioContext := Some Running,
                             outputAudioContext := Some Running, outputTime := 0\<rparr>;
                     s5 = addLog ''Connecting to Gemini Live...'' Info s4
                 in s5\<lparr>sessionPromise := True\<rparr>)))"

definition session_onopen :: "client \<Rightarrow> client" where
  "session_onopen s =
     (let s1 = s\<lparr>connected := True\<rparr>;
          s2 = addLog ''Connected!'' Success s1
      in if inputAudioContext s2 = None \<or> \<not> mediaStream s2 then s2
         else s2\<lparr>capturing := True\<rparr>)"

definition session_onclose :: "client \<Rightarrow> client" where
  "session_onclose s = addLog ''Disconnected'' Info (s\<lparr>connected := False\<rparr>)"

definition session_onerror :: "client \<Rightarrow> client" where
  "session_onerror s = addLog ''Connection Error'' Error s"

text \<open>The loop of \<open>onaudioprocess\<close> over the samples of the frame; \<open>acc\<close> is its variable \<open>sum\<close>.\<close>

fun sum_squares :: "real list \<Rightarrow> real \<Rightarrow> real" where
  "sum_squares [] acc = acc"
| "sum_squares (x # xs) acc = sum_squares xs (acc + x * x)"

text \<open>The value given to \<open>setVolume\<close>; \<open>None\<close> is NaN, which \<open>0 / 0\<close> yields on an empty frame.\<close>

definition loudness :: "real list \<Rightarrow> real option" where
  "loudness inputData =
     (if inputData = [] then None
      else Some (min 1 (sqrt (sum_squares inputData 0 / real (length inputData)) * 5)))"

definition onaudioprocess :: "real list \<Rightarrow> client \<Rightarrow> client" where
  "onaudioprocess inputData s = s\<lparr>volume := loudness inputData\<rparr>"

text \<open>\<open>disconnect\<close>, the session promise being fulfilled.\<close>

definition disconnect :: "client \<Rightarrow> client" where
  "disconnect s =
     (let s1 = s\<lparr>mediaStream := False\<rparr>;
          s2 = s1\<lparr>inputAudioContext := map_option (\<lambda>c. Closed) (inputAudioContext s1),
                  outputAudioContext := map_option (\<lambda>c. Closed) (outputAudioContext s1),
                  capturing := False\<rparr>;
          s3 = s2\<lparr>sources := []\<rparr>;
          s4 = s3\<lparr>connected := False\<rparr>
      in addLog ''Stopped'' Info s4)"

section \<open>Events\<close>

text \<open>
  What the environment does to the hook after it is mounted: time passes, a timer fires
  (not before it is due; for the reconnect timer the flag says whether the socket
  constructor returns), the bridge socket opens, closes or delivers a message, the user
  presses connect or disconnect, the live session calls one of its callbacks, the
  capture node delivers a frame, a scheduled source ends. An event that cannot occur in
  a state (a message on a socket that is not open, a callback of a session never
  requested) leaves the state as it is.
\<close>

datatype event =
    Elapse nat
  | Fire nat bool
  | WsOpen
  | WsClose
  | WsMessage "json option"
  | UserConnect "media_error option"
  | UserDisconnect
  | SessionOpen
  | SessionMessage live_message
  | SessionClose
  | SessionError
  | AudioProcess "real list"
  | SourceEnded nat

definition fire :: "nat \<Rightarrow> bool \<Rightarrow> client \<Rightarrow> client" where
  "fire h ok s =
     (case find (\<lambda>t. fst t = h) (timers s) of
        None \<Rightarrow> s
      | Some (h', due, a) \<Rightarrow>
          if clock s < due then s
          else
            (let s1 = s\<lparr>timers := filter (\<lambda>t. fst t \<noteq> h) (timers s)\<rparr>
             in case a of
                  Reconnect \<Rightarrow> connectToBrowser ok s1
                | ToolTimeout requestId p \<Rightarrow> tool_timeout requestId p s1
                | SimulationDelay name args p \<Rightarrow> simulation_delay name args p s1))"

text \<open>The handler that an event runs.\<close>

fun handle :: "event \<Rightarrow> client \<Rightarrow> client" where
  "handle (Elapse n) s =
     s\<lparr>clock := clock s + n,
       outputTime := (if outputAudioContext s = Some Running
                      then outputTime s + real n / 1000 else outputTime s)\<rparr>"
| "handle (Fire h ok) s = fire h ok s"
| "handle WsOpen s =
     (if browserWs s = Some CONNECTING then ws_onopen (s\<lparr>browserWs := Some OPEN\<rparr>) else s)"
| "handle WsClose s =
     (if browserWs s = None \<or> browserWs s = Some CLOSED then s
      else ws_onclose (s\<lparr>browserWs := Some CLOSED\<rparr>))"
| "handle (WsMessage raw) s = (if browserWs s = Some OPEN then ws_onmessage raw s else s)"
| "handle (UserConnect gum) s = connect gum s"
| "handle UserDisconnect s = disconnect s"
| "handle SessionOpen s = (if sessionPromise s then session_onopen s else s)"
| "handle (SessionMessage m) s = (if sessionPromise s then session_onmessage m s else s)"
| "handle SessionClose s = (if sessionPromise s then session_onclose s else s)"
| "handle SessionError s = (if sessionPromise s then session_onerror s else s)"
| "handle (AudioProcess inputData) s = (if capturing s then onaudioprocess inputData s else s)"
| "handle (SourceEnded k) s = s\<lparr>sources := filter (\<lambda>j. j \<noteq> k) (sources s)\<rparr>"

text \<open>After the handler has returned, the continuations of the promises it resolved run.\<close>

definition drain :: "client \<Rightarrow> client" where
  "drain s = foldl (\<lambda>s' (p, v). resume p v s') (s\<lparr>microtasks := []\<rparr>) (microtasks s)"

definition step :: "event \<Rightarrow> client \<Rightarrow> client" where
  "step e s = drain (handle e s)"

fun run :: "event list \<Rightarrow> client \<Rightarrow> client" where
  "run [] s = s"
| "run (e # es) s = run es (step e s)"

text \<open>The hook once its effect has run: the first call of \<open>connectToBrowser\<close>.\<close>

definition mounted :: "string \<Rightarrow> string list \<Rightarrow> bool \<Rightarrow> client" where
  "mounted key rnd ok = connectToBrowser ok (initial key rnd)"

section \<open>The automation backend\<close>

datatype view = Dashboard | Calendar "json list" | Inbox "json list"

record server =
  currentEvents :: "json list"
  currentEmails :: "json list"
  pageContent :: view

text \<open>
  What the backend reads from its environment while it handles one message:
  \<open>Date.now()\<close>, whether \<open>page.setContent\<close> completes, and the picture
  \<open>page.screenshot\<close> returns (\<open>None\<close> when it throws).
\<close>

record server_env =
  now :: nat
  rendered :: bool
  capture :: "string option"

definition initial_server :: server where
  "initial_server =
     \<lparr> currentEvents =
         [JObj [(''id'', JStr ''1''), (''title'', JStr ''Team Sync''), (''time'', JStr ''10:00 AM''),
                (''attendees'', JArr [JStr ''Alice'', JStr ''Bob''])],
          JObj [(''id'', JStr ''2''), (''title'', JStr ''Lunch with Sarah''),
                (''time'', JStr ''12:30 PM''), (''attendees'', JArr [JStr ''Sarah''])]],
       currentEmails =
         [JObj [(''id'', JStr ''1''), (''from'', JStr ''Boss''), (''subject'', JStr ''Project Update''),
                (''preview'', JStr ''Can we sync later today?''), (''time'', JStr ''9:05 AM''),
                (''read'', JBool False)],
          JObj [(''id'', JStr ''2''), (''from'', JStr ''Newsletter''),
                (''subject'', JStr ''Weekly Digest''),
                (''preview'', JStr ''Top stories in tech this week...''),
                (''time'', JStr ''8:00 AM''), (''read'', JBool True)]],
       pageContent = Dashboard \<rparr>"

text \<open>
  Whether \<open>TEMPLATES.calendar\<close> and \<open>TEMPLATES.email\<close> return their markup (which is
  not modelled) or throw. The calendar template interpolates \<open>evt.time\<close>, \<open>evt.title\<close>
  and, through \<open>evt.attendees.map\<close>, every attendee of every event: it throws on an event
  that is nullish, whose \<open>attendees\<close> is not an array, or where one of these values has
  no string. The email template reads \<open>email.read\<close> and interpolates \<open>email.from[0]\<close>,
  \<open>email.from\<close>, \<open>email.time\<close>, \<open>email.subject\<close> and \<open>email.preview\<close> of every email.
\<close>

definition calendar_renders :: "json list \<Rightarrow> bool" where
  "calendar_renders events =
     list_all (\<lambda>evt. \<not> nullish evt \<and> converts (get evt ''time'') \<and> converts (get evt ''title'')
        \<and> (case get evt ''attendees'' of JArr as \<Rightarrow> list_all converts as | _ \<Rightarrow> False)) events"

definition email_renders :: "json list \<Rightarrow> bool" where
  "email_renders ms =
     list_all (\<lambda>email. \<not> nullish email \<and> \<not> nullish (get email ''from'')
        \<and> converts (index0 (get email ''from'')) \<and> converts (get email ''from'')
        \<and> converts (get email ''time'') \<and> converts (get email ''subject'')
        \<and> converts (get email ''preview'')) ms"

text \<open>
  The end of the handler of an action: the tool result goes out if the request has an
  id, then the screenshot if one could be taken. \<open>out\<close> holds the messages sent before.
\<close>

definition reply :: "server_env \<Rightarrow> json \<Rightarrow> json \<Rightarrow> json list \<Rightarrow> json list" where
  "reply env requestId toolResult out =
     out
     @ (if truthy requestId
        then [json_roundtrip (JObj [(''type'', JStr ''tool_result''), (''id'', requestId),
                                    (''result'', toolResult)])]
        else [])
     @ (case capture env of
          None \<Rightarrow> []
        | Some picture \<Rightarrow> [JObj [(''type'', JStr ''screenshot''), (''data'', JStr picture)]])"

text \<open>
  The handler \<open>ws.on('message')\<close>: the new state of the backend and the messages it
  sends, in order, as the frontend parses them. \<open>raw\<close> is \<open>None\<close> when \<open>JSON.parse\<close>
  throws. An exception ends the handler where it is thrown: in the branch of
  \<open>bookMeeting\<close> the event is pushed before the template is evaluated. The handler is
  taken to run to its end before the next message is handled, and the socket to stay
  open while it runs.
\<close>

definition server_on_message :: "server_env \<Rightarrow> json option \<Rightarrow> server \<Rightarrow> server \<times> json list" where
  "server_on_message env raw srv =
     (case raw of
        None \<Rightarrow> (srv, [])
      | Some data \<Rightarrow>
          if nullish data then (srv, [])
          else if get data ''type'' \<noteq> JStr ''action'' then (srv, [])
          else
            (let requestId = get data ''id''; tool = get data ''tool''; args = get data ''args''
             in if tool = JStr ''openCalendar'' \<or> tool = JStr ''checkAvailability'' then
                  (if calendar_renders (currentEvents srv) \<and> rendered env then
                     (srv\<lparr>pageContent := Calendar (currentEvents srv)\<rparr>,
                      reply env requestId (JObj [(''events'', JArr (currentEvents srv))])
                        [JObj [(''type'', JStr ''url_change''),
                               (''url'', JStr ''https://calendar.agent/view'')]])
                   else (srv, []))
                else if tool = JStr ''openEmail'' then
                  (if email_renders (currentEmails srv) \<and> rendered env then
                     (srv\<lparr>pageContent := Inbox (currentEmails srv)\<rparr>,
                      reply env requestId (JObj [(''emails'', JArr (currentEmails srv))])
                        [JObj [(''type'', JStr ''url_change''),
                               (''url'', JStr ''https://mail.agent/inbox'')]])
                   else (srv, []))
                else if tool = JStr ''bookMeeting'' then
                  (if nullish args then (srv, [])
                   else if truthy (get args ''attendees'') \<and> \<not> is_string (get args ''attendees'')
                   then (srv, [])
                   else
                     (let newEvent = JObj
                            [(''id'', JStr (show_nat (now env))),
                             (''title'', if truthy (get args ''title'') then get args ''title''
                                         else JStr ''New Meeting''),
                             (''time'', if truthy (get args ''time'') then get args ''time''
                                        else JStr ''Next Hour''),
                             (''attendees'',
                                case get args ''attendees'' of
                                  JStr a \<Rightarrow> if a = [] then JArr [JStr ''You'']
                                            else JArr (map JStr (split_comma a))
                                | _ \<Rightarrow> JArr [JStr ''You''])];
                          srv1 = srv\<lparr>currentEvents := currentEvents srv @ [newEvent]\<rparr>
                      in if calendar_renders (currentEvents srv1) \<and> rendered env then
                           (case js_String (get newEvent ''title'') of
                              Inl e \<Rightarrow> (srv1\<lparr>pageContent := Calendar (currentEvents srv1)\<rparr>, [])
                            | Inr title \<Rightarrow>
                                (srv1\<lparr>pageContent := Calendar (currentEvents srv1)\<rparr>,
                                 reply env requestId
                                   (JObj [(''status'', JStr ''success''),
                                          (''bookedEvent'', newEvent)])
                                   [JObj [(''type'', JStr ''log''),
                                          (''message'', JStr (''Booked meeting: '' @ title))]]))
                         else (srv1, [])))
                else if tool = JStr ''sendEmail'' then
                  (if nullish args then (srv, [])
                   else
                     (case js_String (get args ''to'') of
                        Inl e \<Rightarrow> (srv, [])
                      | Inr recipient \<Rightarrow>
                          (srv,
                           reply env requestId
                             (JObj [(''status'', JStr ''success''), (''sentTo'', get args ''to'')])
                             [JObj [(''type'', JStr ''log''),
                                    (''message'', JStr (''Email sent to '' @ recipient))]])))
                else (srv, reply env requestId (JObj [(''status'', JStr ''success'')]) [])))"

text \<open>The frontend receives the messages of the backend in the order they were sent.\<close>

definition deliver :: "json list \<Rightarrow> client \<Rightarrow> client" where
  "deliver ms s = run (map (\<lambda>m. WsMessage (Some m)) ms) s"

section \<open>Invariants\<close>

text \<open>
  The playback timeline: the cursor is the end of the chunk scheduled last (0 before the
  first), and every chunk starts at the larger of the end of the chunk before it and the
  output clock when it was enqueued.
\<close>

definition schedule_inv :: "client \<Rightarrow> bool" where
  "schedule_inv s =
     (nextStartTime s =
        (if scheduled s = [] then 0
         else fst (snd (last (scheduled s))) + snd (snd (last (scheduled s))))
      \<and> (\<forall>k<length (scheduled s).
            fst (snd (scheduled s ! k)) =
              max (if k = 0 then 0
                   else fst (snd (scheduled s ! (k - 1))) + snd (snd (scheduled s ! (k - 1))))
                  (fst (scheduled s ! k))))"

text \<open>
  Timer handles are never reused, and the handle kept in \<open>reconnectTimeoutRef\<close> is not
  the handle of a pending timer of another kind.
\<close>

definition handles_inv :: "client \<Rightarrow> bool" where
  "handles_inv s =
     (distinct (map fst (timers s))
      \<and> (\<forall>t\<in>set (timers s). fst t < nextHandle s)
      \<and> (case reconnectTimeout s of
           None \<Rightarrow> True
         | Some h \<Rightarrow> h < nextHandle s
             \<and> (\<forall>t\<in>set (timers s). fst t = h \<longrightarrow> snd (snd t) = Reconnect)))"

text \<open>
  The bridge is marked connected exactly while its socket is open; while the socket is
  connecting or open no reconnect timer is pending, and otherwise exactly one is, due
  within three seconds, its handle kept in \<open>reconnectTimeoutRef\<close>.
\<close>

definition bridge_inv :: "client \<Rightarrow> bool" where
  "bridge_inv s =
     (browserWs s \<noteq> Some CLOSING
      \<and> isConnected (browserState s) = (browserWs s = Some OPEN)
      \<and> (if browserWs s = Some CONNECTING \<or> browserWs s = Some OPEN
         then filter (\<lambda>t. snd (snd t) = Reconnect) (timers s) = []
         else \<exists>h due. filter (\<lambda>t. snd (snd t) = Reconnect) (timers s) = [(h, due, Reconnect)]
                \<and> reconnectTimeout s = Some h \<and> due \<le> clock s + 3000))"

text \<open>
  What the handlers outside the reconnect loop do to it: they add timers of other kinds
  under fresh handles, and nothing else.
\<close>

definition bridge_neutral :: "client \<Rightarrow> client \<Rightarrow> bool" where
  "bridge_neutral s t =
     (\<exists>new. timers t = timers s @ new
        \<and> (\<forall>x\<in>set new. snd (snd x) \<noteq> Reconnect \<and> nextHandle s \<le> fst x \<and> fst x < nextHandle t)
        \<and> distinct (map fst new)
        \<and> nextHandle s \<le> nextHandle t
        \<and> reconnectTimeout t = reconnectTimeout s
        \<and> browserWs t = browserWs s
        \<and> isConnected (browserState t) = isConnected (browserState s)
        \<and> clock t = clock s)"






section \<open>Continuations\<close>

lemma foldl_resume:
  assumes "\<And>p v t. P t \<Longrightarrow> P (resume p v t)"
  shows "P t \<Longrightarrow> P (foldl (\<lambda>s' (p, v). resume p v s') t ms)"
  by (induction ms arbitrary: t) (auto simp add: assms)

lemma drain_preserves:
  assumes "\<And>p v t. P t \<Longrightarrow> P (resume p v t)" and "P (s\<lparr>microtasks := []\<rparr>)"
  shows "P (drain s)"
proof -
  have "P (foldl (\<lambda>s' (p, v). resume p v s') (s\<lparr>microtasks := []\<rparr>) (microtasks s))"
    by (rule foldl_resume [where P = P, OF assms(1) assms(2)])
  then show ?thesis by (simp add: drain_def)
qed

lemma run_preserves:
  assumes "\<And>e t. P t \<Longrightarrow> P (step e t)"
  shows "P s \<Longrightarrow> P (run es s)"
  by (induction es arbitrary: s) (simp_all add: assms)

text \<open>The definitions that evaluate a run of the hook on given events.\<close>

lemmas eval_defs =
  mounted_def initial_def connectToBrowser_def connect_def addLog_def Let_def step_def
  drain_def session_onmessage_def tool_loop_def executeTool_def setBrowserState_def
  setTimeout_def clearTimeout_def random_id_def ws_send_def ws_onopen_def ws_onclose_def
  ws_onmessage_def resolve_promise_def resume_def sendToolResponse_def audio_part_def
  fire_def simulation_delay_def simulate_def tool_timeout_def timeout_result_def
  deliver_def nullish_def reject_def

section \<open>The activity log is bounded\<close>

lemma slice_bound [simp]: "(n::nat) - (n - 4) \<le> 4"
  by arith

lemma addLog_length: "length (logs (addLog msg ty s)) \<le> 5"
  by (simp add: addLog_def)

lemma executeTool_logs: "length (logs (snd (executeTool name args s))) \<le> 5"
  by (simp add: executeTool_def Let_def setBrowserState_def setTimeout_def ws_send_def
      random_id_def addLog_def split: prod.splits list.splits)

lemma audio_part_logs: "logs (audio_part a s) = logs s"
  by (simp add: audio_part_def Let_def split: option.splits)

lemma tool_loop_logs: "length (logs s) \<le> 5 \<Longrightarrow> length (logs (tool_loop calls a s)) \<le> 5"
proof (cases calls)
  case Nil
  assume "length (logs s) \<le> 5"
  with Nil show ?thesis by (simp add: tool_loop_def audio_part_logs)
next
  case (Cons fc rest)
  obtain p s1 where e: "executeTool (fc_name fc) (fc_args fc) s = (p, s1)"
    by (cases "executeTool (fc_name fc) (fc_args fc) s")
  with executeTool_logs [of "fc_name fc" "fc_args fc" s] have "length (logs s1) \<le> 5"
    by simp
  with Cons e show ?thesis by (simp add: tool_loop_def)
qed

lemma resume_logs: "length (logs s) \<le> 5 \<Longrightarrow> length (logs (resume p v s)) \<le> 5"
  by (auto simp add: resume_def sendToolResponse_def intro!: tool_loop_logs
      split: option.splits task.splits)

lemma simulate_logs: "length (logs s) \<le> 5 \<Longrightarrow> length (logs (snd (simulate name args s))) \<le> 5"
  by (simp add: simulate_def Let_def setBrowserState_def addLog_def split: sum.splits)

lemma simulation_delay_logs:
  "length (logs s) \<le> 5 \<Longrightarrow> length (logs (simulation_delay name args p s)) \<le> 5"
  using simulate_logs [of s name args]
  by (auto simp add: simulation_delay_def reject_def resolve_promise_def
      split: prod.splits sum.splits)

lemma tool_timeout_logs: "logs (tool_timeout r p s) = logs s"
  by (simp add: tool_timeout_def Let_def resolve_promise_def setBrowserState_def)

lemma connectToBrowser_logs: "logs (connectToBrowser ok s) = logs s"
  by (simp add: connectToBrowser_def setTimeout_def)

lemma fire_logs: "length (logs s) \<le> 5 \<Longrightarrow> length (logs (fire h ok s)) \<le> 5"
  by (auto simp add: fire_def Let_def connectToBrowser_logs tool_timeout_logs
      intro!: simulation_delay_logs
      split: option.splits prod.splits timer_action.splits)

lemma ws_onmessage_logs:
  "length (logs s) \<le> 5 \<Longrightarrow> length (logs (ws_onmessage raw s)) \<le> 5"
  by (auto simp add: ws_onmessage_def Let_def setBrowserState_def addLog_length resolve_promise_def
      split: option.splits json.splits sum.splits)

lemma connect_logs: "length (logs (connect gum s)) \<le> 5"
  by (simp add: connect_def Let_def addLog_length split: option.splits)

lemma handle_logs: "length (logs s) \<le> 5 \<Longrightarrow> length (logs (handle e s)) \<le> 5"
  by (cases e)
     (simp_all add: fire_logs ws_onmessage_logs connect_logs ws_onopen_def ws_onclose_def
        Let_def setBrowserState_def setTimeout_def clearTimeout_def addLog_def disconnect_def
        session_onopen_def session_onclose_def session_onerror_def onaudioprocess_def
        session_onmessage_def tool_loop_logs audio_part_logs
        split: option.splits)

lemma step_logs: "length (logs s) \<le> 5 \<Longrightarrow> length (logs (step e s)) \<le> 5"
  unfolding step_def
  by (rule drain_preserves [where P = "\<lambda>t. length (logs t) \<le> 5"])
     (simp_all add: resume_logs handle_logs)

lemma run_logs: "length (logs s) \<le> 5 \<Longrightarrow> length (logs (run es s)) \<le> 5"
  by (rule run_preserves [where P = "\<lambda>t. length (logs t) \<le> 5"]) (simp_all add: step_logs)

text \<open>
  Claim C10. Every call of \<open>addLog\<close> keeps the (at most) four most recent entries and
  appends the new one, so the log then has at most five entries, the newest last; and
  whatever happens to the mounted hook, its log never has more than five entries.
\<close>

theorem addLog_bounded:
  "logs (addLog msg ty s)
     = rev (take 4 (rev (logs s))) @ [\<lparr>timestamp = clock s, message = msg, type = ty\<rparr>]
   \<and> length (logs (addLog msg ty s)) \<le> 5
   \<and> last (logs (addLog msg ty s)) = \<lparr>timestamp = clock s, message = msg, type = ty\<rparr>
   \<and> length (logs (run es (mounted key rnd ok))) \<le> 5"
proof -
  have "length (logs (mounted key rnd ok)) \<le> 5"
    by (simp add: mounted_def connectToBrowser_logs initial_def)
  then have "length (logs (run es (mounted key rnd ok))) \<le> 5"
    by (rule run_logs)
  moreover have "rev (take 4 (rev (logs s))) = drop (length (logs s) - 4) (logs s)"
    by (simp add: rev_take)
  ultimately show ?thesis
    by (simp add: addLog_def)
qed

theorem addLog_bounded_witness:
  "logs (run [UserConnect None, SessionOpen, SessionError, SessionError]
           (mounted ''key'' [] True))
     = [\<lparr>timestamp = 0, message = ''Initializing audio...'', type = Info\<rparr>,
        \<lparr>timestamp = 0, message = ''Connecting to Gemini Live...'', type = Info\<rparr>,
        \<lparr>timestamp = 0, message = ''Connected!'', type = Success\<rparr>,
        \<lparr>timestamp = 0, message = ''Connection Error'', type = Error\<rparr>,
        \<lparr>timestamp = 0, message = ''Connection Error'', type = Error\<rparr>]
   \<and> length (logs (run [UserConnect None, SessionOpen, SessionError, SessionError]
           (mounted ''key'' [] True))) \<le> 5"
  using addLog_bounded [of "''x''" Info "initial ''key'' []"
      "[UserConnect None, SessionOpen, SessionError, SessionError]" "''key''" "[]" True]
  by (simp add: mounted_def initial_def connectToBrowser_def connect_def session_onopen_def
      session_onerror_def addLog_def Let_def step_def drain_def)

section \<open>The playback timeline\<close>

lemma schedule_inv_eq:
  "scheduled t = scheduled s \<Longrightarrow> nextStartTime t = nextStartTime s \<Longrightarrow>
   schedule_inv t = schedule_inv s"
  by (simp add: schedule_inv_def)

lemma schedule_inv_frame:
  "scheduled t = scheduled s \<Longrightarrow> nextStartTime t = nextStartTime s \<Longrightarrow>
   schedule_inv s \<Longrightarrow> schedule_inv t"
  using schedule_inv_eq by blast

lemma audio_part_effect:
  "outputAudioContext s \<noteq> None \<Longrightarrow>
   scheduled (audio_part (Some d) s)
     = scheduled s @ [(outputTime s, max (nextStartTime s) (outputTime s), d)]
   \<and> nextStartTime (audio_part (Some d) s) = max (nextStartTime s) (outputTime s) + d"
  by (simp add: audio_part_def Let_def)

lemma chain_snoc:
  fixes xs :: "(real \<times> real \<times> real) list"
  assumes inv: "\<forall>k<length xs. fst (snd (xs ! k)) =
      max (if k = 0 then 0 else fst (snd (xs ! (k - 1))) + snd (snd (xs ! (k - 1)))) (fst (xs ! k))"
    and st: "st = max (if xs = [] then 0 else fst (snd (last xs)) + snd (snd (last xs))) t"
    and k: "k < length (xs @ [(t, st, d)])"
  shows "fst (snd ((xs @ [(t, st, d)]) ! k)) =
      max (if k = 0 then 0
           else fst (snd ((xs @ [(t, st, d)]) ! (k - 1))) + snd (snd ((xs @ [(t, st, d)]) ! (k - 1))))
          (fst ((xs @ [(t, st, d)]) ! k))"
proof (cases "k < length xs")
  case True
  then have a: "(xs @ [(t, st, d)]) ! k = xs ! k"
    by (simp add: nth_append)
  from True have "k - 1 < length xs" by arith
  then have b: "(xs @ [(t, st, d)]) ! (k - 1) = xs ! (k - 1)"
    by (simp add: nth_append)
  from inv True have "fst (snd (xs ! k)) =
      max (if k = 0 then 0 else fst (snd (xs ! (k - 1))) + snd (snd (xs ! (k - 1)))) (fst (xs ! k))"
    by blast
  then show ?thesis
    unfolding a b .
next
  case False
  with k have kl: "k = length xs" by simp
  then have a: "(xs @ [(t, st, d)]) ! k = (t, st, d)"
    by simp
  show ?thesis
  proof (cases "xs = []")
    case True
    with kl st show ?thesis by simp
  next
    case False
    with kl have b: "(xs @ [(t, st, d)]) ! (k - 1) = last xs"
      by (simp add: nth_append last_conv_nth)
    from False kl have "k \<noteq> 0" by simp
    with st False show ?thesis
      unfolding a b by simp
  qed
qed

lemma audio_part_inv:
  assumes inv: "schedule_inv s"
  shows "schedule_inv (audio_part a s)"
proof (cases "a = None \<or> outputAudioContext s = None")
  case True
  then have "audio_part a s = s"
    by (auto simp add: audio_part_def split: option.splits)
  with inv show ?thesis by simp
next
  case False
  from False obtain d where a: "a = Some d" and c: "outputAudioContext s \<noteq> None" by auto
  define st where "st = max (nextStartTime s) (outputTime s)"
  have e: "scheduled (audio_part a s) = scheduled s @ [(outputTime s, st, d)]"
    and n: "nextStartTime (audio_part a s) = st + d"
    using audio_part_effect [OF c, of d] a by (simp_all add: st_def)
  from inv have i1: "\<forall>k<length (scheduled s). fst (snd (scheduled s ! k)) =
      max (if k = 0 then 0
           else fst (snd (scheduled s ! (k - 1))) + snd (snd (scheduled s ! (k - 1))))
          (fst (scheduled s ! k))"
    and i2: "nextStartTime s = (if scheduled s = [] then 0
         else fst (snd (last (scheduled s))) + snd (snd (last (scheduled s))))"
    unfolding schedule_inv_def by blast+
  have st2: "st = max (if scheduled s = [] then 0
         else fst (snd (last (scheduled s))) + snd (snd (last (scheduled s)))) (outputTime s)"
    unfolding st_def i2 [symmetric] ..
  have "st + d = (if scheduled s @ [(outputTime s, st, d)] = [] then 0
        else fst (snd (last (scheduled s @ [(outputTime s, st, d)])))
           + snd (snd (last (scheduled s @ [(outputTime s, st, d)]))))"
    by simp
  moreover have "\<forall>k<length (scheduled s @ [(outputTime s, st, d)]).
      fst (snd ((scheduled s @ [(outputTime s, st, d)]) ! k)) =
       max (if k = 0 then 0
            else fst (snd ((scheduled s @ [(outputTime s, st, d)]) ! (k - 1)))
               + snd (snd ((scheduled s @ [(outputTime s, st, d)]) ! (k - 1))))
           (fst ((scheduled s @ [(outputTime s, st, d)]) ! k))"
    using chain_snoc [OF i1 st2] by blast
  ultimately show ?thesis
    unfolding schedule_inv_def e n by blast
qed

lemma executeTool_schedule:
  "scheduled (snd (executeTool name args s)) = scheduled s
   \<and> nextStartTime (snd (executeTool name args s)) = nextStartTime s"
  by (simp add: executeTool_def Let_def setBrowserState_def setTimeout_def ws_send_def
      random_id_def addLog_def split: prod.splits list.splits)

lemma tool_loop_schedule:
  assumes inv: "schedule_inv s"
  shows "schedule_inv (tool_loop calls a s)"
proof (cases calls)
  case Nil
  with inv show ?thesis by (simp add: tool_loop_def audio_part_inv)
next
  case (Cons fc rest)
  obtain p s1 where e: "executeTool (fc_name fc) (fc_args fc) s = (p, s1)"
    by (cases "executeTool (fc_name fc) (fc_args fc) s")
  with executeTool_schedule [of "fc_name fc" "fc_args fc" s]
  have "scheduled s1 = scheduled s" "nextStartTime s1 = nextStartTime s" by simp_all
  then have "schedule_inv (s1\<lparr>awaiting := (awaiting s1)(p \<mapsto> Task fc rest a),
      started := started s1 @ [(p, fc)]\<rparr>)"
    by (intro schedule_inv_frame [OF _ _ inv]) simp_all
  with Cons e show ?thesis by (simp add: tool_loop_def)
qed

lemma resume_schedule:
  assumes inv: "schedule_inv s"
  shows "schedule_inv (resume p v s)"
proof (cases "awaiting s p")
  case None
  with inv show ?thesis by (simp add: resume_def)
next
  case (Some t)
  obtain fc rest a where t: "t = Task fc rest a" by (cases t)
  have "schedule_inv (sendToolResponse fc v (s\<lparr>awaiting := (awaiting s)(p := None)\<rparr>))"
    by (intro schedule_inv_frame [OF _ _ inv]) (simp_all add: sendToolResponse_def)
  with Some t show ?thesis by (simp add: resume_def tool_loop_schedule)
qed

lemma simulate_schedule:
  "scheduled (snd (simulate name args s)) = scheduled s
   \<and> nextStartTime (snd (simulate name args s)) = nextStartTime s"
  by (simp add: simulate_def Let_def setBrowserState_def addLog_def split: sum.splits)

lemma simulation_delay_schedule:
  assumes inv: "schedule_inv s"
  shows "schedule_inv (simulation_delay name args p s)"
proof -
  obtain r s1 where e: "simulate name args s = (r, s1)" by (cases "simulate name args s")
  with simulate_schedule [of name args s]
  have f: "scheduled s1 = scheduled s" "nextStartTime s1 = nextStartTime s" by simp_all
  show ?thesis
  proof (cases r)
    case (Inl err)
    have "schedule_inv (reject p s1)"
      using f by (intro schedule_inv_frame [OF _ _ inv]) (simp_all add: reject_def)
    with Inl e show ?thesis by (simp add: simulation_delay_def)
  next
    case (Inr result)
    have "schedule_inv (resolve_promise p result s1)"
      using f by (intro schedule_inv_frame [OF _ _ inv]) (simp_all add: resolve_promise_def)
    with Inr e show ?thesis by (simp add: simulation_delay_def)
  qed
qed

lemma tool_timeout_schedule:
  assumes inv: "schedule_inv s"
  shows "schedule_inv (tool_timeout r p s)"
  by (intro schedule_inv_frame [OF _ _ inv])
     (simp_all add: tool_timeout_def Let_def setBrowserState_def resolve_promise_def)

lemma connectToBrowser_schedule:
  assumes inv: "schedule_inv s"
  shows "schedule_inv (connectToBrowser ok s)"
  by (intro schedule_inv_frame [OF _ _ inv]) (simp_all add: connectToBrowser_def setTimeout_def)

lemma fire_schedule:
  assumes inv: "schedule_inv s"
  shows "schedule_inv (fire h ok s)"
proof -
  have "schedule_inv (s\<lparr>timers := filter (\<lambda>t. fst t \<noteq> h) (timers s)\<rparr>)"
    by (intro schedule_inv_frame [OF _ _ inv]) simp_all
  with inv show ?thesis
    by (simp add: fire_def Let_def tool_timeout_schedule simulation_delay_schedule
        connectToBrowser_schedule split: option.splits prod.splits timer_action.splits)
qed

lemma ws_onmessage_schedule:
  assumes inv: "schedule_inv s"
  shows "schedule_inv (ws_onmessage raw s)"
proof -
  have a: "\<And>f. schedule_inv (setBrowserState f s)"
    by (intro schedule_inv_frame [OF _ _ inv]) (simp_all add: setBrowserState_def)
  have b: "\<And>m t. schedule_inv (addLog m t s)"
    by (intro schedule_inv_frame [OF _ _ inv]) (simp_all add: addLog_def)
  have c: "\<And>q v r. schedule_inv ((resolve_promise q v s)\<lparr>pendingRequests := r\<rparr>)"
    by (intro schedule_inv_frame [OF _ _ inv]) (simp_all add: resolve_promise_def)
  show ?thesis
    using inv a b c
    by (simp add: ws_onmessage_def Let_def split: option.splits json.splits sum.splits)
qed

lemma handle_schedule:
  assumes inv: "schedule_inv s"
  shows "schedule_inv (handle e s)"
proof (cases e)
  case (Fire h ok)
  with inv show ?thesis by (simp add: fire_schedule)
next
  case (WsMessage raw)
  with inv show ?thesis by (simp add: ws_onmessage_schedule)
next
  case (SessionMessage m)
  with inv show ?thesis
    by (simp add: session_onmessage_def tool_loop_schedule audio_part_inv split: option.splits)
next
  case (Elapse n)
  have "schedule_inv (handle (Elapse n) s)"
    by (intro schedule_inv_frame [OF _ _ inv]) simp_all
  with Elapse show ?thesis by simp
next
  case WsOpen
  have "schedule_inv (ws_onopen (s\<lparr>browserWs := Some OPEN\<rparr>))"
    by (intro schedule_inv_frame [OF _ _ inv])
       (simp_all add: ws_onopen_def Let_def setBrowserState_def addLog_def clearTimeout_def
          split: option.splits)
  with WsOpen inv show ?thesis by simp
next
  case WsClose
  have "schedule_inv (ws_onclose (s\<lparr>browserWs := Some CLOSED\<rparr>))"
    by (intro schedule_inv_frame [OF _ _ inv])
       (simp_all add: ws_onclose_def Let_def setBrowserState_def setTimeout_def)
  with WsClose inv show ?thesis by simp
next
  case (UserConnect gum)
  have "schedule_inv (connect gum s)"
    by (intro schedule_inv_frame [OF _ _ inv])
       (simp_all add: connect_def Let_def addLog_def split: option.splits)
  with UserConnect show ?thesis by simp
next
  case UserDisconnect
  have "schedule_inv (disconnect s)"
    by (intro schedule_inv_frame [OF _ _ inv]) (simp_all add: disconnect_def Let_def addLog_def)
  with UserDisconnect show ?thesis by simp
next
  case SessionOpen
  have "schedule_inv (session_onopen s)"
    by (intro schedule_inv_frame [OF _ _ inv]) (simp_all add: session_onopen_def Let_def addLog_def)
  with SessionOpen inv show ?thesis by simp
next
  case SessionClose
  have "schedule_inv (session_onclose s)"
    by (intro schedule_inv_frame [OF _ _ inv]) (simp_all add: session_onclose_def addLog_def)
  with SessionClose inv show ?thesis by simp
next
  case SessionError
  have "schedule_inv (session_onerror s)"
    by (intro schedule_inv_frame [OF _ _ inv]) (simp_all add: session_onerror_def addLog_def)
  with SessionError inv show ?thesis by simp
next
  case (AudioProcess inputData)
  have "schedule_inv (onaudioprocess inputData s)"
    by (intro schedule_inv_frame [OF _ _ inv]) (simp_all add: onaudioprocess_def)
  with AudioProcess inv show ?thesis by simp
next
  case (SourceEnded k)
  have "schedule_inv (handle (SourceEnded k) s)"
    by (intro schedule_inv_frame [OF _ _ inv]) simp_all
  with SourceEnded show ?thesis by simp
qed

lemma step_schedule:
  assumes inv: "schedule_inv s"
  shows "schedule_inv (step e s)"
  unfolding step_def
proof (rule drain_preserves [where P = schedule_inv])
  show "schedule_inv ((handle e s)\<lparr>microtasks := []\<rparr>)"
    by (intro schedule_inv_frame [OF _ _ handle_schedule [OF inv]]) simp_all
qed (rule resume_schedule)

lemma run_schedule: "schedule_inv s \<Longrightarrow> schedule_inv (run es s)"
  by (rule run_preserves [where P = schedule_inv]) (simp_all add: step_schedule)

lemma mounted_schedule: "schedule_inv (mounted key rnd ok)"
  by (simp add: schedule_inv_def mounted_def connectToBrowser_def setTimeout_def initial_def)

text \<open>
  Claim C4. Enqueuing a chunk of duration \<open>d\<close> schedules it at the larger of the cursor
  and the output clock and moves the cursor to that start plus \<open>d\<close>. Hence, whatever
  happens to the mounted hook, the \<open>k\<close>-th chunk it has scheduled starts no earlier than
  the output clock at its enqueuing and no earlier than the end of the chunk before it
  (start plus duration), and exactly at the larger of the two; the cursor is the end of
  the last chunk. Chunks are scheduled in the order of arrival.
\<close>

theorem playback_schedule:
  "(outputAudioContext s \<noteq> None \<longrightarrow>
      scheduled (audio_part (Some d) s)
        = scheduled s @ [(outputTime s, max (nextStartTime s) (outputTime s), d)]
      \<and> nextStartTime (audio_part (Some d) s) = max (nextStartTime s) (outputTime s) + d)
   \<and> (\<forall>k<length (scheduled (run es (mounted key rnd ok))).
        (let sch = scheduled (run es (mounted key rnd ok));
             enqueued = fst (sch ! k);
             start = fst (snd (sch ! k));
             previous_end = (if k = 0 then 0
                             else fst (snd (sch ! (k - 1))) + snd (snd (sch ! (k - 1))))
         in enqueued \<le> start \<and> previous_end \<le> start \<and> start = max previous_end enqueued))
   \<and> nextStartTime (run es (mounted key rnd ok))
       = (if scheduled (run es (mounted key rnd ok)) = [] then 0
          else fst (snd (last (scheduled (run es (mounted key rnd ok)))))
             + snd (snd (last (scheduled (run es (mounted key rnd ok))))))"
proof -
  have "schedule_inv (run es (mounted key rnd ok))"
    by (rule run_schedule) (rule mounted_schedule)
  then have a: "\<forall>k<length (scheduled (run es (mounted key rnd ok))).
      fst (snd (scheduled (run es (mounted key rnd ok)) ! k)) =
        max (if k = 0 then 0
             else fst (snd (scheduled (run es (mounted key rnd ok)) ! (k - 1)))
                + snd (snd (scheduled (run es (mounted key rnd ok)) ! (k - 1))))
            (fst (scheduled (run es (mounted key rnd ok)) ! k))"
    and b: "nextStartTime (run es (mounted key rnd ok))
       = (if scheduled (run es (mounted key rnd ok)) = [] then 0
          else fst (snd (last (scheduled (run es (mounted key rnd ok)))))
             + snd (snd (last (scheduled (run es (mounted key rnd ok))))))"
    unfolding schedule_inv_def by blast+
  have c: "\<forall>k<length (scheduled (run es (mounted key rnd ok))).
        (let sch = scheduled (run es (mounted key rnd ok));
             enqueued = fst (sch ! k);
             start = fst (snd (sch ! k));
             previous_end = (if k = 0 then 0
                             else fst (snd (sch ! (k - 1))) + snd (snd (sch ! (k - 1))))
         in enqueued \<le> start \<and> previous_end \<le> start \<and> start = max previous_end enqueued)"
  proof (intro allI impI)
    fix k assume "k < length (scheduled (run es (mounted key rnd ok)))"
    with a have e: "fst (snd (scheduled (run es (mounted key rnd ok)) ! k)) =
        max (if k = 0 then 0
             else fst (snd (scheduled (run es (mounted key rnd ok)) ! (k - 1)))
                + snd (snd (scheduled (run es (mounted key rnd ok)) ! (k - 1))))
            (fst (scheduled (run es (mounted key rnd ok)) ! k))"
      by blast
    show "(let sch = scheduled (run es (mounted key rnd ok));
             enqueued = fst (sch ! k);
             start = fst (snd (sch ! k));
             previous_end = (if k = 0 then 0
                             else fst (snd (sch ! (k - 1))) + snd (snd (sch ! (k - 1))))
         in enqueued \<le> start \<and> previous_end \<le> start \<and> start = max previous_end enqueued)"
      unfolding Let_def by (subst e)+ simp
  qed
  from audio_part_effect [of s d] b c show ?thesis
    by blast
qed

theorem playback_schedule_witness:
  "scheduled (run [UserConnect None, SessionMessage (LiveServerMessage None (Some 2)),
                   Elapse 1000, SessionMessage (LiveServerMessage None (Some (1 / 2))),
                   Elapse 3000, SessionMessage (LiveServerMessage None (Some 1))]
                (mounted ''key'' [] True))
     = [(0, 0, 2), (1, 2, 1 / 2), (4, 4, 1)]
   \<and> nextStartTime (run [UserConnect None, SessionMessage (LiveServerMessage None (Some 2)),
                   Elapse 1000, SessionMessage (LiveServerMessage None (Some (1 / 2))),
                   Elapse 3000, SessionMessage (LiveServerMessage None (Some 1))]
                (mounted ''key'' [] True)) = 5"
  using playback_schedule [of "initial ''key'' []" 1
      "[UserConnect None, SessionMessage (LiveServerMessage None (Some 2)),
        Elapse 1000, SessionMessage (LiveServerMessage None (Some (1 / 2))),
        Elapse 3000, SessionMessage (LiveServerMessage None (Some 1))]" "''key''" "[]" True]
  by (simp add: mounted_def initial_def connectToBrowser_def connect_def addLog_def Let_def
      session_onmessage_def audio_part_def step_def drain_def)

section \<open>The volume meter\<close>

lemma sum_squares_acc: "sum_squares xs acc = acc + (\<Sum>x\<leftarrow>xs. x\<^sup>2)"
  by (induction xs arbitrary: acc) (simp_all add: power2_eq_square)

lemma sum_squares_nonneg: "0 \<le> (\<Sum>x\<leftarrow>xs. (x::real)\<^sup>2)"
  by (induction xs) simp_all

lemma sum_squares_zero: "(\<forall>x\<in>set xs. x = 0) \<Longrightarrow> (\<Sum>x\<leftarrow>xs. (x::real)\<^sup>2) = 0"
  by (induction xs) simp_all

text \<open>
  Claim C8. For a captured frame (never empty: the capture node delivers 4096 samples)
  the published loudness is \<open>min 1 (rms * 5)\<close>, where \<open>rms\<close> is the root of the mean
  of the squares of the samples; it lies between 0 and 1, and it is 0 for a frame of
  zeros. Samples and sums are real numbers here.
\<close>

theorem loudness_bounded:
  assumes "inputData \<noteq> []"
  shows "volume (onaudioprocess inputData s)
           = Some (min 1 (sqrt ((\<Sum>x\<leftarrow>inputData. x\<^sup>2) / real (length inputData)) * 5))
         \<and> (\<exists>v. volume (onaudioprocess inputData s) = Some v \<and> 0 \<le> v \<and> v \<le> 1)
         \<and> ((\<forall>x\<in>set inputData. x = 0) \<longrightarrow> volume (onaudioprocess inputData s) = Some 0)"
proof -
  let ?rms = "sqrt ((\<Sum>x\<leftarrow>inputData. x\<^sup>2) / real (length inputData))"
  have v: "volume (onaudioprocess inputData s) = Some (min 1 (?rms * 5))"
    using assms by (simp add: onaudioprocess_def loudness_def sum_squares_acc)
  have "0 \<le> ?rms"
    by (simp add: sum_squares_nonneg)
  then have b: "0 \<le> min 1 (?rms * 5) \<and> min 1 (?rms * 5) \<le> 1"
    by simp
  have z: "(\<forall>x\<in>set inputData. x = 0) \<longrightarrow> min 1 (?rms * 5) = 0"
    by (simp add: sum_squares_zero)
  from v b z show ?thesis by simp
qed

theorem loudness_bounded_witness:
  "volume (onaudioprocess [1 / 10, 1 / 10] (initial [] [])) = Some (1 / 2)
   \<and> volume (onaudioprocess [1, 1, 1] (initial [] [])) = Some 1
   \<and> volume (onaudioprocess [0, 0] (initial [] [])) = Some 0"
proof -
  have r: "sqrt (1 / 100) = 1 / 10"
    by (rule real_sqrt_unique) (simp_all add: power2_eq_square)
  have a: "volume (onaudioprocess [1 / 10, 1 / 10] (initial [] [])) = Some (1 / 2)"
    using loudness_bounded [of "[1 / 10, 1 / 10]" "initial [] []"] r
    by (simp add: power2_eq_square)
  have b: "volume (onaudioprocess [1, 1, 1] (initial [] [])) = Some 1"
    using loudness_bounded [of "[1, 1, 1]" "initial [] []"]
    by simp
  have c: "volume (onaudioprocess [0, 0] (initial [] [])) = Some 0"
    using loudness_bounded [of "[0, 0]" "initial [] []"]
    by simp
  from a b c show ?thesis by simp
qed

section \<open>The backend and the simulation\<close>

lemma json_roundtrip_undef [simp]: "(json_roundtrip x = JUndef) = (x = JUndef)"
  by (cases x) simp_all







text \<open>
  Claim C2. On the bridge an unknown tool name is not answered with "tool not found":
  the backend has no branch for it and replies with its initial result, a success; only
  the simulation answers with the error.
\<close>

theorem unknown_tool_on_bridge:
  "(let c1 = run [WsOpen, UserConnect None,
                  SessionMessage (LiveServerMessage
                    (Some (Some [FunctionCall (JStr ''call-1'') ''deleteEvent'' (JObj [])])) None)]
               (mounted ''key'' [''r1''] True);
        (srv, out) = server_on_message \<lparr>now = 7, rendered = True, capture = Some ''pic''\<rparr>
                       (Some (last (sent c1))) initial_server
    in last (sent c1) = JObj [(''type'', JStr ''action''), (''id'', JStr ''r1''),
                              (''tool'', JStr ''deleteEvent''), (''args'', JObj [])]
       \<and> out = [JObj [(''type'', JStr ''tool_result''), (''id'', JStr ''r1''),
                      (''result'', JObj [(''status'', JStr ''success'')])],
                JObj [(''type'', JStr ''screenshot''), (''data'', JStr ''pic'')]]
       \<and> toolResponses (deliver out c1)
           = [(JStr ''call-1'', ''deleteEvent'', JObj [(''status'', JStr ''success'')])])
   \<and> toolResponses (run [UserConnect None,
                  SessionMessage (LiveServerMessage
                    (Some (Some [FunctionCall (JStr ''call-1'') ''deleteEvent'' (JObj [])])) None),
                  Elapse 800, Fire 1 True]
               (mounted ''key'' [''r1''] True))
       = [(JStr ''call-1'', ''deleteEvent'',
           JObj [(''status'', JStr ''error''), (''message'', JStr ''Tool not found'')])]"
  by (simp add: eval_defs server_on_message_def reply_def)

text \<open>
  Claim C7. Without the bridge, \<open>bookMeeting\<close> sends nothing and returns its result
  after the delay of 800 ms, but its branch of the simulation does not touch the browser
  state: page and url stay as they were and the loading flag set by the dispatch stays
  on. The branch of \<open>openCalendar\<close> beside it sets all three.
\<close>

theorem simulated_bookMeeting_browser_state:
  "(let c = run [UserConnect None,
                 SessionMessage (LiveServerMessage
                   (Some (Some [FunctionCall (JStr ''call-1'') ''bookMeeting''
                      (JObj [(''title'', JStr ''Review''), (''time'', JStr ''2:00 PM'')])])) None),
                 Elapse 800, Fire 1 True]
              (mounted ''key'' [] True)
    in sent c = []
       \<and> toolResponses c = [(JStr ''call-1'', ''bookMeeting'',
            JObj [(''status'', JStr ''success''), (''booked'', JStr ''Review'')])]
       \<and> page (browserState c) = ''dashboard''
       \<and> url (browserState c) = JStr ''about:blank''
       \<and> isLoading (browserState c))
   \<and> (let c = run [UserConnect None,
                 SessionMessage (LiveServerMessage
                   (Some (Some [FunctionCall (JStr ''call-1'') ''openCalendar'' (JObj [])])) None),
                 Elapse 800, Fire 1 True]
              (mounted ''key'' [] True)
    in sent c = []
       \<and> page (browserState c) = ''calendar''
       \<and> url (browserState c) = JStr ''https://calendar.agent/view''
       \<and> \<not> isLoading (browserState c))"
  by (simp add: eval_defs)

section \<open>A booking over the bridge\<close>















lemma converts_projr: "converts x \<Longrightarrow> js_String x = Inr (projr (js_String x))"
  by (cases "js_String x") (simp_all add: converts_def)






section \<open>The reconnect loop of the bridge\<close>

lemma bridge_neutral_same:
  "timers t = timers s \<Longrightarrow> nextHandle t = nextHandle s \<Longrightarrow>
   reconnectTimeout t = reconnectTimeout s \<Longrightarrow> browserWs t = browserWs s \<Longrightarrow>
   isConnected (browserState t) = isConnected (browserState s) \<Longrightarrow> clock t = clock s \<Longrightarrow>
   bridge_neutral s t"
  unfolding bridge_neutral_def by (intro exI [of _ "[]"]) simp

lemma bridge_neutral_refl: "bridge_neutral s s"
  by (rule bridge_neutral_same) simp_all

lemma bridge_neutral_trans:
  assumes "bridge_neutral s t" and "bridge_neutral t u"
  shows "bridge_neutral s u"
proof -
  from assms(1) obtain n1 where a: "timers t = timers s @ n1"
    "\<forall>x\<in>set n1. snd (snd x) \<noteq> Reconnect \<and> nextHandle s \<le> fst x \<and> fst x < nextHandle t"
    "distinct (map fst n1)" "nextHandle s \<le> nextHandle t"
    "reconnectTimeout t = reconnectTimeout s" "browserWs t = browserWs s"
    "isConnected (browserState t) = isConnected (browserState s)" "clock t = clock s"
    unfolding bridge_neutral_def by blast
  from assms(2) obtain n2 where b: "timers u = timers t @ n2"
    "\<forall>x\<in>set n2. snd (snd x) \<noteq> Reconnect \<and> nextHandle t \<le> fst x \<and> fst x < nextHandle u"
    "distinct (map fst n2)" "nextHandle t \<le> nextHandle u"
    "reconnectTimeout u = reconnectTimeout t" "browserWs u = browserWs t"
    "isConnected (browserState u) = isConnected (browserState t)" "clock u = clock t"
    unfolding bridge_neutral_def by blast
  have "timers u = timers s @ (n1 @ n2)" using a(1) b(1) by simp
  moreover have "\<forall>x\<in>set (n1 @ n2).
      snd (snd x) \<noteq> Reconnect \<and> nextHandle s \<le> fst x \<and> fst x < nextHandle u"
    using a(2,4) b(2,4) by fastforce
  moreover have "distinct (map fst (n1 @ n2))"
    using a(2,3) b(2,3) by fastforce
  moreover have "nextHandle s \<le> nextHandle u" using a(4) b(4) by simp
  ultimately show ?thesis
    unfolding bridge_neutral_def using a(5-8) b(5-8)
    by (intro exI [of _ "n1 @ n2"]) simp
qed

lemma bridge_neutral_handles:
  assumes "bridge_neutral s t" and "handles_inv s"
  shows "handles_inv t"
proof -
  from assms(1) obtain new where a: "timers t = timers s @ new"
    "\<forall>x\<in>set new. snd (snd x) \<noteq> Reconnect \<and> nextHandle s \<le> fst x \<and> fst x < nextHandle t"
    "distinct (map fst new)" "nextHandle s \<le> nextHandle t"
    "reconnectTimeout t = reconnectTimeout s"
    unfolding bridge_neutral_def by blast
  from assms(2) have h: "distinct (map fst (timers s))" "\<forall>x\<in>set (timers s). fst x < nextHandle s"
    unfolding handles_inv_def by blast+
  have d: "distinct (map fst (timers t))"
    unfolding a(1) using h a(2,3) by fastforce
  have b: "\<forall>x\<in>set (timers t). fst x < nextHandle t"
    unfolding a(1) using h(2) a(2,4) by fastforce
  have r: "case reconnectTimeout t of None \<Rightarrow> True
         | Some h \<Rightarrow> h < nextHandle t
             \<and> (\<forall>x\<in>set (timers t). fst x = h \<longrightarrow> snd (snd x) = Reconnect)"
  proof (cases "reconnectTimeout s")
    case None
    with a(5) show ?thesis by simp
  next
    case (Some k)
    with assms(2) have k: "k < nextHandle s"
      "\<forall>x\<in>set (timers s). fst x = k \<longrightarrow> snd (snd x) = Reconnect"
      unfolding handles_inv_def by simp_all
    have "\<forall>x\<in>set new. fst x \<noteq> k" using a(2) k(1) by fastforce
    with k a(4) have "k < nextHandle t
        \<and> (\<forall>x\<in>set (timers t). fst x = k \<longrightarrow> snd (snd x) = Reconnect)"
      unfolding a(1) by auto
    with Some a(5) show ?thesis by simp
  qed
  from d b r show ?thesis unfolding handles_inv_def by blast
qed

lemma bridge_neutral_bridge:
  assumes "bridge_neutral s t" and "bridge_inv s"
  shows "bridge_inv t"
proof -
  from assms(1) obtain new where a: "timers t = timers s @ new"
    "\<forall>x\<in>set new. snd (snd x) \<noteq> Reconnect \<and> nextHandle s \<le> fst x \<and> fst x < nextHandle t"
    "reconnectTimeout t = reconnectTimeout s" "browserWs t = browserWs s"
    "isConnected (browserState t) = isConnected (browserState s)" "clock t = clock s"
    unfolding bridge_neutral_def by blast
  have "filter (\<lambda>x. snd (snd x) = Reconnect) new = []"
    using a(2) by (simp add: filter_empty_conv)
  then have "filter (\<lambda>x. snd (snd x) = Reconnect) (timers t)
      = filter (\<lambda>x. snd (snd x) = Reconnect) (timers s)"
    unfolding a(1) by simp
  with assms(2) a(3-6) show ?thesis
    unfolding bridge_inv_def by simp
qed

lemma bridge_neutral_timer:
  assumes "a \<noteq> Reconnect"
    and "timers t = timers s @ [(nextHandle s, due, a)]" and "nextHandle t = Suc (nextHandle s)"
    and "reconnectTimeout t = reconnectTimeout s" and "browserWs t = browserWs s"
    and "isConnected (browserState t) = isConnected (browserState s)" and "clock t = clock s"
  shows "bridge_neutral s t"
  unfolding bridge_neutral_def using assms
  by (intro exI [of _ "[(nextHandle s, due, a)]"]) simp

lemma executeTool_neutral: "bridge_neutral s (snd (executeTool name args s))"
proof (cases "browserWs s = Some OPEN")
  case True
  show ?thesis
    by (rule bridge_neutral_timer
        [where a = "ToolTimeout (fst (random_id s)) (nextPromise s)" and due = "clock s + 5000"])
       (simp_all add: True executeTool_def Let_def setBrowserState_def setTimeout_def ws_send_def
          random_id_def addLog_def split: prod.splits list.splits)
next
  case False
  show ?thesis
    by (rule bridge_neutral_timer
        [where a = "SimulationDelay name args (nextPromise s)" and due = "clock s + 800"])
       (simp_all add: False executeTool_def Let_def setBrowserState_def setTimeout_def addLog_def)
qed

lemma audio_part_neutral: "bridge_neutral s (audio_part a s)"
  by (rule bridge_neutral_same) (simp_all add: audio_part_def Let_def split: option.splits)

lemma tool_loop_neutral: "bridge_neutral s (tool_loop calls a s)"
proof (cases calls)
  case Nil
  then show ?thesis by (simp add: tool_loop_def audio_part_neutral)
next
  case (Cons fc rest)
  obtain p s1 where e: "executeTool (fc_name fc) (fc_args fc) s = (p, s1)"
    by (cases "executeTool (fc_name fc) (fc_args fc) s")
  with executeTool_neutral [of s "fc_name fc" "fc_args fc"] have n: "bridge_neutral s s1"
    by simp
  have "bridge_neutral s1 (s1\<lparr>awaiting := (awaiting s1)(p \<mapsto> Task fc rest a),
      started := started s1 @ [(p, fc)]\<rparr>)"
    by (rule bridge_neutral_same) simp_all
  with n have "bridge_neutral s (s1\<lparr>awaiting := (awaiting s1)(p \<mapsto> Task fc rest a),
      started := started s1 @ [(p, fc)]\<rparr>)"
    by (rule bridge_neutral_trans)
  with Cons e show ?thesis by (simp add: tool_loop_def)
qed

lemma resume_neutral: "bridge_neutral s (resume p v s)"
proof (cases "awaiting s p")
  case None
  then show ?thesis by (simp add: resume_def bridge_neutral_refl)
next
  case (Some t)
  obtain fc rest a where t: "t = Task fc rest a" by (cases t)
  have "bridge_neutral s (sendToolResponse fc v (s\<lparr>awaiting := (awaiting s)(p := None)\<rparr>))"
    by (rule bridge_neutral_same) (simp_all add: sendToolResponse_def)
  then have "bridge_neutral s
      (tool_loop rest a (sendToolResponse fc v (s\<lparr>awaiting := (awaiting s)(p := None)\<rparr>)))"
    using tool_loop_neutral by (rule bridge_neutral_trans)
  with Some t show ?thesis by (simp add: resume_def)
qed

lemma drain_neutral: "bridge_neutral s (drain s)"
proof -
  have "bridge_neutral s (s\<lparr>microtasks := []\<rparr>)"
    by (rule bridge_neutral_same) simp_all
  then show ?thesis
    by (rule drain_preserves [where P = "bridge_neutral s", rotated])
       (erule bridge_neutral_trans, rule resume_neutral)
qed

lemma simulate_neutral: "bridge_neutral s (snd (simulate name args s))"
  by (rule bridge_neutral_same)
     (simp_all add: simulate_def Let_def setBrowserState_def addLog_def split: sum.splits)

lemma simulation_delay_neutral: "bridge_neutral s (simulation_delay name args p s)"
proof -
  obtain r s1 where e: "simulate name args s = (r, s1)" by (cases "simulate name args s")
  with simulate_neutral [of s name args] have n: "bridge_neutral s s1" by simp
  have "bridge_neutral s1 (reject p s1)" "\<And>v. bridge_neutral s1 (resolve_promise p v s1)"
    by (rule bridge_neutral_same, simp_all add: reject_def resolve_promise_def)+
  with n have "bridge_neutral s (reject p s1)" "\<And>v. bridge_neutral s (resolve_promise p v s1)"
    by (blast intro: bridge_neutral_trans)+
  with e show ?thesis by (simp add: simulation_delay_def split: sum.splits)
qed

lemma tool_timeout_neutral: "bridge_neutral s (tool_timeout r p s)"
  by (rule bridge_neutral_same)
     (simp_all add: tool_timeout_def Let_def setBrowserState_def resolve_promise_def)

lemma ws_onmessage_neutral: "bridge_neutral s (ws_onmessage raw s)"
  by (rule bridge_neutral_same)
     (simp_all add: ws_onmessage_def Let_def setBrowserState_def addLog_def resolve_promise_def
        split: option.splits json.splits sum.splits)

lemma connect_neutral: "bridge_neutral s (connect gum s)"
  by (rule bridge_neutral_same) (simp_all add: connect_def Let_def addLog_def split: option.splits)

lemma session_neutral:
  "bridge_neutral s (session_onopen s)" "bridge_neutral s (session_onclose s)"
  "bridge_neutral s (session_onerror s)" "bridge_neutral s (disconnect s)"
  "bridge_neutral s (onaudioprocess inputData s)"
  by (rule bridge_neutral_same,
      simp_all add: session_onopen_def session_onclose_def session_onerror_def disconnect_def
        onaudioprocess_def Let_def addLog_def)+

lemma session_onmessage_neutral: "bridge_neutral s (session_onmessage m s)"
  by (simp add: session_onmessage_def tool_loop_neutral audio_part_neutral bridge_neutral_refl
      split: option.splits)

lemma handles_inv_same:
  "timers t = timers s \<Longrightarrow> nextHandle t = nextHandle s \<Longrightarrow>
   reconnectTimeout t = reconnectTimeout s \<Longrightarrow> handles_inv t = handles_inv s"
  by (simp add: handles_inv_def cong: option.case_cong)

lemma bridge_inv_same:
  "filter (\<lambda>x. snd (snd x) = Reconnect) (timers t)
     = filter (\<lambda>x. snd (snd x) = Reconnect) (timers s) \<Longrightarrow>
   reconnectTimeout t = reconnectTimeout s \<Longrightarrow> browserWs t = browserWs s \<Longrightarrow>
   isConnected (browserState t) = isConnected (browserState s) \<Longrightarrow> clock t = clock s \<Longrightarrow>
   bridge_inv t = bridge_inv s"
  by (simp add: bridge_inv_def)

lemma distinct_fst_eq:
  "distinct (map fst xs) \<Longrightarrow> x \<in> set xs \<Longrightarrow> y \<in> set xs \<Longrightarrow> fst x = fst y \<Longrightarrow> x = y"
  by (auto simp add: distinct_map dest: inj_onD)

lemma find_SomeD: "find P xs = Some x \<Longrightarrow> x \<in> set xs \<and> P x"
  by (induction xs) (auto split: if_splits)

lemma filter_commute: "filter P (filter Q xs) = filter Q (filter P xs)"
  by (induction xs) simp_all

lemma schedule_reconnect:
  assumes h: "handles_inv s"
    and f: "filter (\<lambda>x. snd (snd x) = Reconnect) (timers s) = []"
    and t: "timers t = timers s @ [(nextHandle s, clock s + 3000, Reconnect)]"
      "nextHandle t = Suc (nextHandle s)" "reconnectTimeout t = Some (nextHandle s)"
      "clock t = clock s"
    and w: "browserWs t \<noteq> Some CONNECTING" "browserWs t \<noteq> Some OPEN"
      "browserWs t \<noteq> Some CLOSING" "\<not> isConnected (browserState t)"
  shows "handles_inv t \<and> bridge_inv t"
proof -
  from h have hd: "distinct (map fst (timers s))"
    and hb: "\<forall>x\<in>set (timers s). fst x < nextHandle s"
    unfolding handles_inv_def by blast+
  from hb have fresh: "nextHandle s \<notin> fst ` set (timers s)" by fastforce
  have d: "distinct (map fst (timers t))"
    unfolding t(1) using hd fresh by simp
  have b: "\<forall>x\<in>set (timers t). fst x < nextHandle t"
    unfolding t(1,2) using hb by fastforce
  have r: "nextHandle s < nextHandle t
      \<and> (\<forall>x\<in>set (timers t). fst x = nextHandle s \<longrightarrow> snd (snd x) = Reconnect)"
    unfolding t(1,2) using hb by fastforce
  have hi: "handles_inv t"
    unfolding handles_inv_def t(3) using d b r by simp
  have "filter (\<lambda>x. snd (snd x) = Reconnect) (timers t) = [(nextHandle s, clock s + 3000, Reconnect)]"
    unfolding t(1) using f by simp
  then have bi: "bridge_inv t"
    unfolding bridge_inv_def using w t(3,4) by simp
  from hi bi show ?thesis ..
qed

lemma remove_timer:
  assumes h: "handles_inv s" and m: "(k, due, a) \<in> set (timers s)"
    and t: "timers t = filter (\<lambda>x. fst x \<noteq> k) (timers s)" "nextHandle t = nextHandle s"
      "reconnectTimeout t = reconnectTimeout s"
  shows "handles_inv t"
    and "filter (\<lambda>x. snd (snd x) = Reconnect) (timers t)
         = filter (\<lambda>x. x \<noteq> (k, due, a)) (filter (\<lambda>x. snd (snd x) = Reconnect) (timers s))"
proof -
  from h have hd: "distinct (map fst (timers s))"
    and hb: "\<forall>x\<in>set (timers s). fst x < nextHandle s"
    and hr: "case reconnectTimeout s of None \<Rightarrow> True
         | Some h \<Rightarrow> h < nextHandle s
             \<and> (\<forall>x\<in>set (timers s). fst x = h \<longrightarrow> snd (snd x) = Reconnect)"
    unfolding handles_inv_def by blast+
  have d: "distinct (map fst (timers t))"
    unfolding t(1) using hd by (rule distinct_map_filter)
  have b: "\<forall>x\<in>set (timers t). fst x < nextHandle t"
    unfolding t(1,2) using hb by simp
  have r: "case reconnectTimeout t of None \<Rightarrow> True
         | Some h \<Rightarrow> h < nextHandle t
             \<and> (\<forall>x\<in>set (timers t). fst x = h \<longrightarrow> snd (snd x) = Reconnect)"
  proof (cases "reconnectTimeout s")
    case None
    then show ?thesis unfolding t(3) by simp
  next
    case (Some j)
    with hr have "j < nextHandle s"
      "\<forall>x\<in>set (timers s). fst x = j \<longrightarrow> snd (snd x) = Reconnect" by simp_all
    then have "j < nextHandle t \<and> (\<forall>x\<in>set (timers t). fst x = j \<longrightarrow> snd (snd x) = Reconnect)"
      unfolding t(1,2) by simp
    with Some show ?thesis unfolding t(3) by simp
  qed
  from d b r show "handles_inv t" unfolding handles_inv_def by blast
  have q: "(fst x \<noteq> k) = (x \<noteq> (k, due, a))" if "x \<in> set (timers s)" for x
    using distinct_fst_eq [OF hd that m] by auto
  have "filter (\<lambda>x. fst x \<noteq> k) (timers s) = filter (\<lambda>x. x \<noteq> (k, due, a)) (timers s)"
    by (rule filter_cong [OF refl]) (rule q)
  then show "filter (\<lambda>x. snd (snd x) = Reconnect) (timers t)
         = filter (\<lambda>x. x \<noteq> (k, due, a)) (filter (\<lambda>x. snd (snd x) = Reconnect) (timers s))"
    unfolding t(1) by (simp only: filter_commute [of "\<lambda>x. snd (snd x) = Reconnect"])
qed

lemma pending_reconnect:
  assumes b: "bridge_inv s" and m: "(k, due, a) \<in> set (timers s)" and True: "a = Reconnect"
  shows "\<exists>h0 d0. filter (\<lambda>x. snd (snd x) = Reconnect) (timers s) = [(h0, d0, Reconnect)] \<and> (h0, d0, Reconnect) = (k, due, a) \<and> browserWs s \<noteq> Some CONNECTING \<and> browserWs s \<noteq> Some OPEN"
proof -
      from m True have mem: "(k, due, a) \<in> set (filter (\<lambda>x. snd (snd x) = Reconnect) (timers s))"
        by simp
      from m True have ne: "filter (\<lambda>x. snd (snd x) = Reconnect) (timers s) \<noteq> []"
        by (force simp add: filter_empty_conv)
      have nl0: "\<not> (browserWs s = Some CONNECTING \<or> browserWs s = Some OPEN)"
      proof
        assume "browserWs s = Some CONNECTING \<or> browserWs s = Some OPEN"
        with b have "filter (\<lambda>x. snd (snd x) = Reconnect) (timers s) = []"
          unfolding bridge_inv_def by simp
        with ne show False by simp
      qed
      then have nl: "browserWs s \<noteq> Some CONNECTING" "browserWs s \<noteq> Some OPEN"
        by simp_all
      from b nl0 have "\<exists>h due. filter (\<lambda>x. snd (snd x) = Reconnect) (timers s) = [(h, due, Reconnect)]
          \<and> reconnectTimeout s = Some h \<and> due \<le> clock s + 3000"
        unfolding bridge_inv_def by simp
      then obtain h0 d0
        where r: "filter (\<lambda>x. snd (snd x) = Reconnect) (timers s) = [(h0, d0, Reconnect)]"
        by blast
      from mem have e: "(h0, d0, Reconnect) = (k, due, a)"
        unfolding r by simp
  from r e nl show ?thesis by blast
qed

lemma connectToBrowser_inv:
  assumes h1: "handles_inv s1" and f0: "filter (\<lambda>x. snd (snd x) = Reconnect) (timers s1) = []"
    and nl: "browserWs s1 \<noteq> Some CONNECTING" "browserWs s1 \<noteq> Some OPEN"
      "browserWs s1 \<noteq> Some CLOSING" "\<not> isConnected (browserState s1)"
  shows "handles_inv (connectToBrowser ok s1) \<and> bridge_inv (connectToBrowser ok s1)"
proof (cases ok)
  case True
  have "handles_inv (s1\<lparr>browserWs := Some CONNECTING\<rparr>) = handles_inv s1"
    by (rule handles_inv_same) simp_all
  with h1 have hc: "handles_inv (s1\<lparr>browserWs := Some CONNECTING\<rparr>)"
    by simp
  have bc: "bridge_inv (s1\<lparr>browserWs := Some CONNECTING\<rparr>)"
    unfolding bridge_inv_def using f0 nl by simp
  from hc bc True show ?thesis by (simp add: connectToBrowser_def)
next
  case False
  have "handles_inv (connectToBrowser False s1) \<and> bridge_inv (connectToBrowser False s1)"
    using h1 f0
  proof (rule schedule_reconnect)
    show "timers (connectToBrowser False s1)
        = timers s1 @ [(nextHandle s1, clock s1 + 3000, Reconnect)]"
      "nextHandle (connectToBrowser False s1) = Suc (nextHandle s1)"
      "reconnectTimeout (connectToBrowser False s1) = Some (nextHandle s1)"
      "clock (connectToBrowser False s1) = clock s1"
      by (simp_all add: connectToBrowser_def setTimeout_def)
    show "browserWs (connectToBrowser False s1) \<noteq> Some CONNECTING"
      "browserWs (connectToBrowser False s1) \<noteq> Some OPEN"
      "browserWs (connectToBrowser False s1) \<noteq> Some CLOSING"
      "\<not> isConnected (browserState (connectToBrowser False s1))"
      using nl by (simp_all add: connectToBrowser_def setTimeout_def)
  qed
  with False show ?thesis by simp
qed

lemma fire_inv:
  assumes h: "handles_inv s" and b: "bridge_inv s"
  shows "handles_inv (fire k ok s) \<and> bridge_inv (fire k ok s)"
proof (cases "find (\<lambda>t. fst t = k) (timers s)")
  case None
  with h b show ?thesis by (simp add: fire_def)
next
  case (Some t)
  obtain k' due a where t: "t = (k', due, a)" by (cases t)
  from find_SomeD [OF Some] t have m: "(k, due, a) \<in> set (timers s)" and k': "k' = k"
    by auto
  show ?thesis
  proof (cases "clock s < due")
    case True
    with Some t h b show ?thesis by (simp add: fire_def)
  next
    case False
    define s1 where "s1 = s\<lparr>timers := filter (\<lambda>t. fst t \<noteq> k) (timers s)\<rparr>"
    have s1: "timers s1 = filter (\<lambda>x. fst x \<noteq> k) (timers s)" "nextHandle s1 = nextHandle s"
      "reconnectTimeout s1 = reconnectTimeout s" "browserWs s1 = browserWs s"
      "browserState s1 = browserState s" "clock s1 = clock s"
      by (simp_all add: s1_def)
    note rm = remove_timer [OF h m s1(1,2,3)]
    from b have c: "browserWs s \<noteq> Some CLOSING"
      "isConnected (browserState s) = (browserWs s = Some OPEN)"
      unfolding bridge_inv_def by blast+
    have fire: "fire k ok s = (case a of Reconnect \<Rightarrow> connectToBrowser ok s1
          | ToolTimeout requestId p \<Rightarrow> tool_timeout requestId p s1
          | SimulationDelay name args p \<Rightarrow> simulation_delay name args p s1)"
      using Some t False unfolding s1_def by (simp add: fire_def Let_def)
    show ?thesis
    proof (cases "a = Reconnect")
      case True
      from pending_reconnect [OF b m True] obtain h0 d0
        where r: "filter (\<lambda>x. snd (snd x) = Reconnect) (timers s) = [(h0, d0, Reconnect)]"
          and e: "(h0, d0, Reconnect) = (k, due, a)"
          and nl: "browserWs s \<noteq> Some CONNECTING" "browserWs s \<noteq> Some OPEN"
        by blast
      have "filter (\<lambda>x. x \<noteq> (k, due, a)) [(h0, d0, Reconnect)] = []"
        using e by simp
      then have f0: "filter (\<lambda>x. snd (snd x) = Reconnect) (timers s1) = []"
        unfolding rm(2) r .
      from nl c have "browserWs s1 \<noteq> Some CONNECTING" "browserWs s1 \<noteq> Some OPEN"
        "browserWs s1 \<noteq> Some CLOSING" "\<not> isConnected (browserState s1)"
        unfolding s1(4,5) by simp_all
      with rm(1) f0
      have "handles_inv (connectToBrowser ok s1) \<and> bridge_inv (connectToBrowser ok s1)"
        by (rule connectToBrowser_inv)
      with fire True show ?thesis by simp
    next
      case nr: False
      have "\<forall>x\<in>set (filter (\<lambda>x. snd (snd x) = Reconnect) (timers s)). x \<noteq> (k, due, a)"
        using nr by auto
      then have "filter (\<lambda>x. snd (snd x) = Reconnect) (timers s1)
          = filter (\<lambda>x. snd (snd x) = Reconnect) (timers s)"
        unfolding rm(2) by (simp only: filter_id_conv)
      then have "bridge_inv s1 = bridge_inv s"
        by (rule bridge_inv_same) (simp_all add: s1)
      with b have b1: "bridge_inv s1"
        by simp
      have n: "bridge_neutral s1 (case a of Reconnect \<Rightarrow> connectToBrowser ok s1
          | ToolTimeout requestId p \<Rightarrow> tool_timeout requestId p s1
          | SimulationDelay name args p \<Rightarrow> simulation_delay name args p s1)"
        using nr by (cases a) (simp_all add: tool_timeout_neutral simulation_delay_neutral)
      from bridge_neutral_handles [OF n rm(1)] bridge_neutral_bridge [OF n b1] fire
      show ?thesis by simp
    qed
  qed
qed

lemma ws_onopen_inv:
  assumes h: "handles_inv s" and b: "bridge_inv s" and c: "browserWs s = Some CONNECTING"
  shows "handles_inv (ws_onopen (s\<lparr>browserWs := Some OPEN\<rparr>))
       \<and> bridge_inv (ws_onopen (s\<lparr>browserWs := Some OPEN\<rparr>))"
proof -
  from b c have f: "filter (\<lambda>x. snd (snd x) = Reconnect) (timers s) = []"
    unfolding bridge_inv_def by simp
  define t where "t = ws_onopen (s\<lparr>browserWs := Some OPEN\<rparr>)"
  have t: "timers t = (case reconnectTimeout s of None \<Rightarrow> timers s
                       | Some j \<Rightarrow> filter (\<lambda>x. fst x \<noteq> j) (timers s))"
    "nextHandle t = nextHandle s" "reconnectTimeout t = reconnectTimeout s"
    "browserWs t = Some OPEN" "isConnected (browserState t)"
    by (simp_all add: t_def ws_onopen_def Let_def setBrowserState_def addLog_def clearTimeout_def
        split: option.splits)
  from h have hd: "distinct (map fst (timers s))"
    and hb: "\<forall>x\<in>set (timers s). fst x < nextHandle s"
    and hr: "case reconnectTimeout s of None \<Rightarrow> True
         | Some h \<Rightarrow> h < nextHandle s
             \<and> (\<forall>x\<in>set (timers s). fst x = h \<longrightarrow> snd (snd x) = Reconnect)"
    unfolding handles_inv_def by blast+
  have sub: "set (timers t) \<subseteq> set (timers s)"
    unfolding t(1) by (auto split: option.splits)
  have d: "distinct (map fst (timers t))"
    unfolding t(1) using hd by (simp add: distinct_map_filter split: option.splits)
  have hi: "handles_inv t"
    unfolding handles_inv_def t(2,3) using d hb hr sub
    by (auto split: option.splits)
  from f have "\<forall>x\<in>set (timers s). snd (snd x) \<noteq> Reconnect"
    by (simp add: filter_empty_conv)
  with sub have "\<forall>x\<in>set (timers t). snd (snd x) \<noteq> Reconnect"
    by blast
  then have "filter (\<lambda>x. snd (snd x) = Reconnect) (timers t) = []"
    by (simp add: filter_empty_conv)
  then have "bridge_inv t"
    unfolding bridge_inv_def t(4) using t(5) by simp
  with hi show ?thesis unfolding t_def ..
qed

lemma ws_onclose_inv:
  assumes h: "handles_inv s" and b: "bridge_inv s"
    and c: "browserWs s = Some CONNECTING \<or> browserWs s = Some OPEN"
  shows "handles_inv (ws_onclose (s\<lparr>browserWs := Some CLOSED\<rparr>))
       \<and> bridge_inv (ws_onclose (s\<lparr>browserWs := Some CLOSED\<rparr>))"
  using h
proof (rule schedule_reconnect)
  from b c show "filter (\<lambda>x. snd (snd x) = Reconnect) (timers s) = []"
    unfolding bridge_inv_def by simp
  show "timers (ws_onclose (s\<lparr>browserWs := Some CLOSED\<rparr>))
      = timers s @ [(nextHandle s, clock s + 3000, Reconnect)]"
    "nextHandle (ws_onclose (s\<lparr>browserWs := Some CLOSED\<rparr>)) = Suc (nextHandle s)"
    "reconnectTimeout (ws_onclose (s\<lparr>browserWs := Some CLOSED\<rparr>)) = Some (nextHandle s)"
    "clock (ws_onclose (s\<lparr>browserWs := Some CLOSED\<rparr>)) = clock s"
    "browserWs (ws_onclose (s\<lparr>browserWs := Some CLOSED\<rparr>)) \<noteq> Some CONNECTING"
    "browserWs (ws_onclose (s\<lparr>browserWs := Some CLOSED\<rparr>)) \<noteq> Some OPEN"
    "browserWs (ws_onclose (s\<lparr>browserWs := Some CLOSED\<rparr>)) \<noteq> Some CLOSING"
    "\<not> isConnected (browserState (ws_onclose (s\<lparr>browserWs := Some CLOSED\<rparr>)))"
    by (simp_all add: ws_onclose_def Let_def setBrowserState_def setTimeout_def)
qed

lemma elapse_inv:
  assumes h: "handles_inv s" and b: "bridge_inv s"
  shows "handles_inv (handle (Elapse n) s) \<and> bridge_inv (handle (Elapse n) s)"
proof -
  have "handles_inv (handle (Elapse n) s) = handles_inv s"
    by (rule handles_inv_same) simp_all
  moreover from b have "bridge_inv (handle (Elapse n) s)"
    unfolding bridge_inv_def by auto
  ultimately show ?thesis using h by simp
qed

lemma handle_inv:
  assumes h: "handles_inv s" and b: "bridge_inv s"
  shows "handles_inv (handle e s) \<and> bridge_inv (handle e s)"
proof -
  have neutral: "handles_inv t \<and> bridge_inv t" if "bridge_neutral s t" for t
    using bridge_neutral_handles [OF that h] bridge_neutral_bridge [OF that b] ..
  show ?thesis
  proof (cases e)
    case (Elapse n)
    with elapse_inv [OF h b] show ?thesis by simp
  next
    case (Fire k ok)
    with fire_inv [OF h b] show ?thesis by simp
  next
    case WsOpen
    with ws_onopen_inv [OF h b] h b show ?thesis by simp
  next
    case WsClose
    from b have "browserWs s \<noteq> Some CLOSING" unfolding bridge_inv_def by blast
    then have "browserWs s = None \<or> browserWs s = Some CLOSED
        \<or> browserWs s = Some CONNECTING \<or> browserWs s = Some OPEN"
      by (cases "browserWs s") (auto intro: ready_state.exhaust)
    with WsClose ws_onclose_inv [OF h b] h b show ?thesis by auto
  next
    case (WsMessage raw)
    with neutral [OF ws_onmessage_neutral] neutral [OF bridge_neutral_refl] show ?thesis by simp
  next
    case (UserConnect gum)
    with neutral [OF connect_neutral] show ?thesis by simp
  next
    case UserDisconnect
    with neutral [OF session_neutral(4)] show ?thesis by simp
  next
    case SessionOpen
    with neutral [OF session_neutral(1)] neutral [OF bridge_neutral_refl] show ?thesis by simp
  next
    case (SessionMessage m)
    with neutral [OF session_onmessage_neutral] neutral [OF bridge_neutral_refl]
    show ?thesis by simp
  next
    case SessionClose
    with neutral [OF session_neutral(2)] neutral [OF bridge_neutral_refl] show ?thesis by simp
  next
    case SessionError
    with neutral [OF session_neutral(3)] neutral [OF bridge_neutral_refl] show ?thesis by simp
  next
    case (AudioProcess inputData)
    with neutral [OF session_neutral(5)] neutral [OF bridge_neutral_refl] show ?thesis by simp
  next
    case (SourceEnded j)
    have "bridge_neutral s (handle (SourceEnded j) s)"
      by (rule bridge_neutral_same) simp_all
    with SourceEnded neutral show ?thesis by simp
  qed
qed

lemma step_inv:
  assumes "handles_inv s \<and> bridge_inv s"
  shows "handles_inv (step e s) \<and> bridge_inv (step e s)"
proof -
  from assms handle_inv have i: "handles_inv (handle e s) \<and> bridge_inv (handle e s)" by blast
  from bridge_neutral_handles [OF drain_neutral] bridge_neutral_bridge [OF drain_neutral] i
  show ?thesis unfolding step_def by blast
qed

lemma run_inv:
  "handles_inv s \<and> bridge_inv s \<Longrightarrow> handles_inv (run es s) \<and> bridge_inv (run es s)"
  by (rule run_preserves [where P = "\<lambda>t. handles_inv t \<and> bridge_inv t"]) (rule step_inv)

lemma mounted_inv: "handles_inv (mounted key rnd ok) \<and> bridge_inv (mounted key rnd ok)"
  by (cases ok)
     (simp_all add: mounted_def initial_def connectToBrowser_def setTimeout_def handles_inv_def
        bridge_inv_def)

lemma find_distinct:
  "distinct (map fst xs) \<Longrightarrow> (k, v) \<in> set xs \<Longrightarrow> find (\<lambda>t. fst t = k) xs = Some (k, v)"
  by (induction xs) (auto simp add: image_iff)

text \<open>
  Claim C6. A close event of the bridge socket (a socket that fails to open closes too)
  marks the bridge disconnected and schedules one reconnect timer, due 3000 ms later,
  whose handle goes to \<open>reconnectTimeoutRef\<close>; so does (but for the mark) a socket
  constructor that throws. An open event marks the bridge connected and clears the timer
  whose handle \<open>reconnectTimeoutRef\<close> holds. Whatever happens to the mounted hook, the
  bridge is marked connected exactly while the socket is open; while the socket is
  connecting or open no reconnect timer is pending, and otherwise exactly one is, due
  within 3000 ms; when that timer fires, the hook makes a new socket or, if the
  constructor throws, schedules the next timer 3000 ms later: there is no growth of the
  delay and no cap on the attempts.
\<close>

theorem bridge_reconnect:
  "(browserWs s = Some CONNECTING \<or> browserWs s = Some OPEN \<longrightarrow>
      \<not> isConnected (browserState (handle WsClose s))
      \<and> browserWs (handle WsClose s) = Some CLOSED
      \<and> timers (handle WsClose s) = timers s @ [(nextHandle s, clock s + 3000, Reconnect)]
      \<and> reconnectTimeout (handle WsClose s) = Some (nextHandle s))
   \<and> timers (connectToBrowser False s) = timers s @ [(nextHandle s, clock s + 3000, Reconnect)]
   \<and> reconnectTimeout (connectToBrowser False s) = Some (nextHandle s)
   \<and> (browserWs s = Some CONNECTING \<longrightarrow>
      isConnected (browserState (handle WsOpen s))
      \<and> browserWs (handle WsOpen s) = Some OPEN
      \<and> (\<forall>h. reconnectTimeout s = Some h \<longrightarrow> h \<notin> fst ` set (timers (handle WsOpen s))))
   \<and> isConnected (browserState (run es (mounted key rnd ok)))
       = (browserWs (run es (mounted key rnd ok)) = Some OPEN)
   \<and> (if browserWs (run es (mounted key rnd ok)) = Some CONNECTING
          \<or> browserWs (run es (mounted key rnd ok)) = Some OPEN
       then filter (\<lambda>t. snd (snd t) = Reconnect) (timers (run es (mounted key rnd ok))) = []
       else \<exists>h due. filter (\<lambda>t. snd (snd t) = Reconnect) (timers (run es (mounted key rnd ok)))
                       = [(h, due, Reconnect)]
              \<and> reconnectTimeout (run es (mounted key rnd ok)) = Some h
              \<and> due \<le> clock (run es (mounted key rnd ok)) + 3000)
   \<and> (\<forall>h due. (h, due, Reconnect) \<in> set (timers (run es (mounted key rnd ok)))
          \<and> due \<le> clock (run es (mounted key rnd ok)) \<longrightarrow>
        browserWs (handle (Fire h True) (run es (mounted key rnd ok))) = Some CONNECTING
        \<and> last (timers (handle (Fire h False) (run es (mounted key rnd ok))))
            = (nextHandle (run es (mounted key rnd ok)),
               clock (run es (mounted key rnd ok)) + 3000, Reconnect))"
proof -
  define r where "r = run es (mounted key rnd ok)"
  have inv: "handles_inv r" "bridge_inv r"
    unfolding r_def using run_inv [OF mounted_inv] by blast+
  have a: "browserWs s = Some CONNECTING \<or> browserWs s = Some OPEN \<longrightarrow>
      \<not> isConnected (browserState (handle WsClose s))
      \<and> browserWs (handle WsClose s) = Some CLOSED
      \<and> timers (handle WsClose s) = timers s @ [(nextHandle s, clock s + 3000, Reconnect)]
      \<and> reconnectTimeout (handle WsClose s) = Some (nextHandle s)"
    by (auto simp add: ws_onclose_def Let_def setBrowserState_def setTimeout_def)
  have b: "timers (connectToBrowser False s) = timers s @ [(nextHandle s, clock s + 3000, Reconnect)]
      \<and> reconnectTimeout (connectToBrowser False s) = Some (nextHandle s)"
    by (simp add: connectToBrowser_def setTimeout_def)
  have c: "browserWs s = Some CONNECTING \<longrightarrow>
      isConnected (browserState (handle WsOpen s))
      \<and> browserWs (handle WsOpen s) = Some OPEN
      \<and> (\<forall>h. reconnectTimeout s = Some h \<longrightarrow> h \<notin> fst ` set (timers (handle WsOpen s)))"
    by (auto simp add: ws_onopen_def Let_def setBrowserState_def addLog_def clearTimeout_def
        split: option.splits)
  from inv(2) have d: "isConnected (browserState r) = (browserWs r = Some OPEN)"
    and e: "if browserWs r = Some CONNECTING \<or> browserWs r = Some OPEN
       then filter (\<lambda>t. snd (snd t) = Reconnect) (timers r) = []
       else \<exists>h due. filter (\<lambda>t. snd (snd t) = Reconnect) (timers r) = [(h, due, Reconnect)]
              \<and> reconnectTimeout r = Some h \<and> due \<le> clock r + 3000"
    unfolding bridge_inv_def by blast+
  have f: "\<forall>h due. (h, due, Reconnect) \<in> set (timers r) \<and> due \<le> clock r \<longrightarrow>
        browserWs (handle (Fire h True) r) = Some CONNECTING
        \<and> last (timers (handle (Fire h False) r)) = (nextHandle r, clock r + 3000, Reconnect)"
  proof (intro allI impI)
    fix h due assume m: "(h, due, Reconnect) \<in> set (timers r) \<and> due \<le> clock r"
    from inv(1) have "distinct (map fst (timers r))" unfolding handles_inv_def by blast
    with m have "find (\<lambda>t. fst t = h) (timers r) = Some (h, due, Reconnect)"
      by (simp add: find_distinct)
    with m show "browserWs (handle (Fire h True) r) = Some CONNECTING
        \<and> last (timers (handle (Fire h False) r)) = (nextHandle r, clock r + 3000, Reconnect)"
      by (simp add: fire_def Let_def connectToBrowser_def setTimeout_def)
  qed
  from a b c d e f show ?thesis unfolding r_def by blast
qed

theorem bridge_reconnect_witness:
  "timers (run [WsClose] (mounted ''key'' [] True)) = [(1, 3000, Reconnect)]
   \<and> \<not> isConnected (browserState (run [WsClose] (mounted ''key'' [] True)))
   \<and> timers (run [WsClose, Elapse 3000, Fire 1 False] (mounted ''key'' [] True))
       = [(2, 6000, Reconnect)]
   \<and> browserWs (run [WsClose, Elapse 3000, Fire 1 False, Elapse 3000, Fire 2 True]
                  (mounted ''key'' [] True)) = Some CONNECTING
   \<and> isConnected (browserState
        (run [WsClose, Elapse 3000, Fire 1 False, Elapse 3000, Fire 2 True, WsOpen]
          (mounted ''key'' [] True)))
   \<and> timers (run [WsClose, Elapse 3000, Fire 1 False, Elapse 3000, Fire 2 True, WsOpen]
               (mounted ''key'' [] True)) = []"
  using bridge_reconnect [of "mounted ''key'' [] True" "[WsClose]" "''key''" "[]" True]
  by (simp add: eval_defs)

section \<open>Every request of the bridge is resolved once\<close>












section \<open>The handlers keep the requests in order\<close>






























end
